theory Spec2Isabelle
  imports Main "HOL-Library.Char_ord" "HOL-Library.List_Lexorder"
    "HOL-Library.Product_Lexorder" "HOL-Library.Multiset"
begin

section \<open>Python values shared by the modules\<close>

text \<open>
  The repository is a Python program: \<^verbatim>\<open>fetch_news.py\<close> (the curation pipeline, the
  summarization orchestrator and the persistence store) and \<^verbatim>\<open>scheduler_loop.py\<close>
  (the trigger loop). Python strings are modelled as \<^typ>\<open>string\<close>, one \<^typ>\<open>char\<close>
  standing for one code point, so the texts of the model are those over the code points
  0 to 255; the comparison of two strings is Python's, the lexicographic order on code
  points. Exceptions are values: a function that can raise returns a sum whose left side
  is the exception.
\<close>

datatype py_error = OverflowError | UnicodeEncodeError

subsection \<open>datetime\<close>

text \<open>
  A \<^verbatim>\<open>datetime.datetime\<close> is the record of its calendar fields. Every datetime the two
  modules compare with another one carries the same \<^verbatim>\<open>tzinfo\<close> (UTC in
  \<^verbatim>\<open>fetch_articles\<close>, the fixed +09:00 zone in \<^verbatim>\<open>get_next_run\<close>), and for such a pair
  Python compares the fields in the order year, month, day, hour, minute, second,
  microsecond.
\<close>

record datetime =
  year :: nat
  month :: nat
  day :: nat
  hour :: nat
  minute :: nat
  second :: nat
  microsecond :: nat

definition is_leap :: "nat \<Rightarrow> bool" where
  "is_leap y = (y mod 4 = 0 \<and> (y mod 100 \<noteq> 0 \<or> y mod 400 = 0))"

definition days_in_month :: "nat \<Rightarrow> nat \<Rightarrow> nat" where
  "days_in_month y m =
     (if m = 2 then (if is_leap y then 29 else 28)
      else if m = 4 \<or> m = 6 \<or> m = 9 \<or> m = 11 then 30 else 31)"

text \<open>The range checks of the \<^verbatim>\<open>datetime\<close> constructor (MINYEAR = 1, MAXYEAR = 9999).\<close>

definition valid_datetime :: "datetime \<Rightarrow> bool" where
  "valid_datetime d =
     (1 \<le> year d \<and> year d \<le> 9999 \<and> 1 \<le> month d \<and> month d \<le> 12 \<and>
      1 \<le> day d \<and> day d \<le> days_in_month (year d) (month d) \<and>
      hour d < 24 \<and> minute d < 60 \<and> second d < 60 \<and> microsecond d < 1000000)"

definition dt_fields :: "datetime \<Rightarrow> nat \<times> nat \<times> nat \<times> nat \<times> nat \<times> nat \<times> nat" where
  "dt_fields d = (year d, month d, day d, hour d, minute d, second d, microsecond d)"

definition dt_less :: "datetime \<Rightarrow> datetime \<Rightarrow> bool" where
  "dt_less a b = (dt_fields a < dt_fields b)"

text \<open>\<^verbatim>\<open>d.date()\<close> and \<^verbatim>\<open>d.time()\<close>, as tuples of their fields.\<close>

definition date_of :: "datetime \<Rightarrow> nat \<times> nat \<times> nat" where
  "date_of d = (year d, month d, day d)"

definition time_of :: "datetime \<Rightarrow> nat \<times> nat \<times> nat \<times> nat" where
  "time_of d = (hour d, minute d, second d, microsecond d)"

text \<open>
  \<^verbatim>\<open>d + timedelta(days=1)\<close> and \<^verbatim>\<open>d - timedelta(days=1)\<close>: the time of day stays, the date
  moves to the next or the previous calendar day; leaving the years 1..9999 raises
  OverflowError.
\<close>

definition add_one_day :: "datetime \<Rightarrow> datetime option" where
  "add_one_day d =
     (if day d < days_in_month (year d) (month d) then Some (d\<lparr>day := day d + 1\<rparr>)
      else if month d < 12 then Some (d\<lparr>month := month d + 1, day := 1\<rparr>)
      else if year d < 9999 then Some (d\<lparr>year := year d + 1, month := 1, day := 1\<rparr>)
      else None)"

definition sub_one_day :: "datetime \<Rightarrow> datetime option" where
  "sub_one_day d =
     (if 1 < day d then Some (d\<lparr>day := day d - 1\<rparr>)
      else if 1 < month d
        then Some (d\<lparr>month := month d - 1, day := days_in_month (year d) (month d - 1)\<rparr>)
      else if 1 < year d then Some (d\<lparr>year := year d - 1, month := 12, day := 31\<rparr>)
      else None)"

fun sub_days :: "nat \<Rightarrow> datetime \<Rightarrow> datetime option" where
  "sub_days 0 d = Some d"
| "sub_days (Suc n) d = (case sub_one_day d of None \<Rightarrow> None | Some d' \<Rightarrow> sub_days n d')"

text \<open>\<^verbatim>\<open>d - timedelta(hours=h)\<close>.\<close>

definition minus_hours :: "datetime \<Rightarrow> nat \<Rightarrow> datetime option" where
  "minus_hours d h =
     (let q = h div 24; r = h mod 24
      in if r \<le> hour d then sub_days q (d\<lparr>hour := hour d - r\<rparr>)
         else sub_days (Suc q) (d\<lparr>hour := hour d + 24 - r\<rparr>))"

subsection \<open>Strings\<close>

text \<open>
  \<^verbatim>\<open>str.lower\<close>, \<^verbatim>\<open>str.startswith\<close>, \<^verbatim>\<open>str.endswith\<close> and the substring test
  \<^verbatim>\<open>kw in text\<close>. Lower-casing is modelled on the letters A to Z; every keyword and
  marker the program searches for is ASCII.
\<close>

definition lower_char :: "char \<Rightarrow> char" where
  "lower_char c = (if CHR ''A'' \<le> c \<and> c \<le> CHR ''Z'' then char_of (of_char c + (32::nat)) else c)"

definition lower :: "string \<Rightarrow> string" where
  "lower s = map lower_char s"

fun startswith :: "string \<Rightarrow> string \<Rightarrow> bool" where
  "startswith s [] = True"
| "startswith [] (p # ps) = False"
| "startswith (c # cs) (p # ps) = (c = p \<and> startswith cs ps)"

definition endswith :: "string \<Rightarrow> string \<Rightarrow> bool" where
  "endswith s p = startswith (rev s) (rev p)"

fun str_contains :: "string \<Rightarrow> string \<Rightarrow> bool" where
  "str_contains [] kw = (kw = [])"
| "str_contains (c # cs) kw = (startswith (c # cs) kw \<or> str_contains cs kw)"

text \<open>
  The classes \<^verbatim>\<open>\d\<close> and \<^verbatim>\<open>\s\<close> of the \<^verbatim>\<open>re\<close> module for patterns on \<^verbatim>\<open>str\<close>, on the code
  points 0 to 255: the decimal digits are 0 to 9, and the white space is the space, the
  controls 0x09 to 0x0D and 0x1C to 0x1F, the next-line control 0x85 and the no-break space
  0xA0.
\<close>

definition is_digit :: "char \<Rightarrow> bool" where
  "is_digit c = (CHR ''0'' \<le> c \<and> c \<le> CHR ''9'')"

definition is_space :: "char \<Rightarrow> bool" where
  "is_space c =
     (c = CHR '' '' \<or> (CHR 0x09 \<le> c \<and> c \<le> CHR 0x0D) \<or> (CHR 0x1C \<le> c \<and> c \<le> CHR 0x1F) \<or>
      c = CHR 0x85 \<or> c = CHR 0xA0)"

text \<open>
  The conversion \<^verbatim>\<open>"%0wd" % n\<close>: the decimal digits of \<open>n\<close>, padded with zeros on the
  left to at least \<open>w\<close> characters.
\<close>

definition digit_char :: "nat \<Rightarrow> char" where
  "digit_char n = char_of (48 + n)"

fun fmt_d :: "nat \<Rightarrow> nat \<Rightarrow> string" where
  "fmt_d w n =
     (if n < 10 then replicate (w - 1) (CHR ''0'') @ [digit_char n]
      else fmt_d (w - 1) (n div 10) @ [digit_char (n mod 10)])"

declare fmt_d.simps [simp del]

text \<open>
  \<^verbatim>\<open>d.isoformat()\<close> of an aware datetime whose UTC offset prints as \<open>offset\<close>
  (\<^verbatim>\<open>+00:00\<close> for UTC, \<^verbatim>\<open>+09:00\<close> for the scheduler's zone): the fraction of a second is
  printed only when the microsecond is not zero.
\<close>

definition isoformat :: "string \<Rightarrow> datetime \<Rightarrow> string" where
  "isoformat offset d =
     fmt_d 4 (year d) @ ''-'' @ fmt_d 2 (month d) @ ''-'' @ fmt_d 2 (day d) @ ''T'' @
     fmt_d 2 (hour d) @ '':'' @ fmt_d 2 (minute d) @ '':'' @ fmt_d 2 (second d) @
     (if microsecond d \<noteq> 0 then ''.'' @ fmt_d 6 (microsecond d) else []) @ offset"

text \<open>
  \<^verbatim>\<open>d.strftime("%Y-%m-%d %H:%M UTC")\<close>, the text shown for an article, with the year on
  four digits, as every platform prints the years from 1000 on.
\<close>

definition strftime_published :: "datetime \<Rightarrow> string" where
  "strftime_published d =
     fmt_d 4 (year d) @ ''-'' @ fmt_d 2 (month d) @ ''-'' @ fmt_d 2 (day d) @ '' '' @
     fmt_d 2 (hour d) @ '':'' @ fmt_d 2 (minute d) @ '' UTC''"

text \<open>
  \<^verbatim>\<open>d.strftime("%Y%m%d_%H%M")\<close>, the stamp in the name of a snapshot file. What \<^verbatim>\<open>%Y\<close>
  prints for a year below 1000 depends on the platform's C library: some pad the year with
  zeros to four digits, glibc prints its digits as they are. \<open>ypad\<close> is the width to which
  the platform pads the year, 4 or 1.
\<close>

definition strftime_stamp :: "nat \<Rightarrow> datetime \<Rightarrow> string" where
  "strftime_stamp ypad d =
     fmt_d ypad (year d) @ fmt_d 2 (month d) @ fmt_d 2 (day d) @ ''_'' @
     fmt_d 2 (hour d) @ fmt_d 2 (minute d)"

subsection \<open>Sorting\<close>

text \<open>
  \<^verbatim>\<open>xs.sort(key=k, reverse=True)\<close> and \<^verbatim>\<open>sorted(xs, reverse=True)\<close>: Python's sort is
  stable, also with \<^verbatim>\<open>reverse=True\<close>, so its result is the one rearrangement of \<open>xs\<close>
  that is descending in the key and keeps elements of equal key in their original
  order. The model computes that list by insertion: an element goes in front of the
  first element whose key is not larger.
\<close>

fun insert_desc :: "('a \<Rightarrow> 'k::linorder) \<Rightarrow> 'a \<Rightarrow> 'a list \<Rightarrow> 'a list" where
  "insert_desc key x [] = [x]"
| "insert_desc key x (y # ys) =
     (if key y \<le> key x then x # y # ys else y # insert_desc key x ys)"

fun sort_desc :: "('a \<Rightarrow> 'k::linorder) \<Rightarrow> 'a list \<Rightarrow> 'a list" where
  "sort_desc key [] = []"
| "sort_desc key (x # xs) = insert_desc key x (sort_desc key xs)"

section \<open>fetch\_news.py: the curation pipeline\<close>

subsection \<open>Configuration\<close>

definition RSS_FEEDS_MEDIA :: "(string \<times> string) list" where
  "RSS_FEEDS_MEDIA =
    [(''TechCrunch AI'', ''https://techcrunch.com/category/artificial-intelligence/feed/''),
     (''VentureBeat'', ''https://venturebeat.com/feed/''),
     (''The Verge AI'', ''https://www.theverge.com/rss/ai-artificial-intelligence/index.xml''),
     (''Wired'', ''https://www.wired.com/feed/rss''),
     (''MIT Tech Review'', ''https://www.technologyreview.com/feed/''),
     (''ZDNet AI'', ''https://www.zdnet.com/topic/artificial-intelligence/rss.xml''),
     (''InfoQ AI/ML'', ''https://feed.infoq.com/ai-ml-data-eng''),
     (''IEEE Spectrum'', ''https://spectrum.ieee.org/feeds/feed.rss''),
     (''AI Business'', ''https://aibusiness.com/rss.xml''),
     (''Analytics Vidhya'', ''https://www.analyticsvidhya.com/feed/''),
     (''CNBC Tech'', ''https://www.cnbc.com/id/19854910/device/rss/rss.html'')]"

definition RSS_FEEDS_KEYMAN :: "(string \<times> string) list" where
  "RSS_FEEDS_KEYMAN =
    [(''Google DeepMind'', ''https://deepmind.google/blog/rss.xml''),
     (''NVIDIA Blog'', ''https://blogs.nvidia.com/feed/''),
     (''Microsoft AI'', ''https://blogs.microsoft.com/feed/''),
     (''Hugging Face'', ''https://huggingface.co/blog/feed.xml''),
     (''Meta AI/Eng'', ''https://engineering.fb.com/category/ai-research/feed/''),
     (''Last Week in AI'', ''https://lastweekin.ai/feed''),
     (''Import AI'', ''https://importai.substack.com/feed''),
     (''Sam Altman Blog'', ''http://blog.samaltman.com/posts.atom''),
     (''Andrej Karpathy'', ''https://karpathy.bearblog.dev/feed/'')]"

definition RSS_FEEDS :: "(string \<times> string) list" where
  "RSS_FEEDS = RSS_FEEDS_MEDIA @ RSS_FEEDS_KEYMAN"

definition MAX_ARTICLE_AGE_HOURS :: nat where
  "MAX_ARTICLE_AGE_HOURS = 24"

definition AI_KEYWORDS :: "string list" where
  "AI_KEYWORDS =
    [''AI'', ''artificial intelligence'', ''machine learning'', ''deep learning'',
     ''LLM'', ''large language model'', ''GPT'', ''ChatGPT'', ''Claude'', ''Gemini'',
     ''OpenAI'', ''Anthropic'', ''Google DeepMind'', ''Meta AI'', ''Microsoft AI'',
     ''neural network'', ''generative AI'', ''foundation model'', ''AGI'',
     ''robotics'', ''autonomous'', ''computer vision'', ''natural language'',
     ''Nvidia'', ''GPU'', ''semiconductor'', ''chip'', ''data center'']"

definition is_ai_related :: "string \<Rightarrow> string \<Rightarrow> bool" where
  "is_ai_related title summary =
     (let text = lower (title @ '' '' @ summary)
      in list_ex (\<lambda>kw. str_contains text (lower kw)) AI_KEYWORDS)"

subsection \<open>Feed entries and the publication instant\<close>

text \<open>
  A feed entry as \<^verbatim>\<open>fetch_articles\<close> and \<^verbatim>\<open>parse_pub_date\<close> read it: each field may be
  missing (\<^verbatim>\<open>entry.get(key, default)\<close>, \<^verbatim>\<open>getattr(entry, attr, None)\<close>). A
  \<^verbatim>\<open>time.struct_time\<close> is the tuple of its integers.
\<close>

type_synonym struct_time = "int list"

record entry =
  e_title :: "string option"
  e_summary :: "string option"
  e_description :: "string option"
  e_link :: "string option"
  e_published_parsed :: "struct_time option"
  e_updated_parsed :: "struct_time option"
  e_published :: "string option"
  e_updated :: "string option"

text \<open>
  The three library conversions \<^verbatim>\<open>parse_pub_date\<close> calls, each with the conversion to
  UTC that follows it in the source; \<open>None\<close> stands for a raised exception, which the
  \<^verbatim>\<open>try\<close> around each call swallows:
  \<^item> \<open>from_struct t\<close> is \<^verbatim>\<open>datetime.fromtimestamp(time.mktime(t), tz=timezone.utc)\<close>;
  \<^item> \<open>from_rfc2822 s\<close> is \<^verbatim>\<open>email.utils.parsedate_to_datetime(s).astimezone(timezone.utc)\<close>;
  \<^item> \<open>from_iso s\<close> is \<^verbatim>\<open>datetime.fromisoformat(s).astimezone(timezone.utc)\<close>.
\<close>

record date_lib =
  from_struct :: "struct_time \<Rightarrow> datetime option"
  from_rfc2822 :: "string \<Rightarrow> datetime option"
  from_iso :: "string \<Rightarrow> datetime option"

text \<open>
  \<^verbatim>\<open>re.sub(r"(\+\d{2}):(\d{2})$", r"+\1\2", s)\<close>. The pattern is anchored by \<^verbatim>\<open>$\<close>, which
  matches at the end of the string and in front of a newline that ends it, so the only
  possible match is the last six characters of the string without that newline. The
  first group contains the sign, and the replacement writes a sign in front of it.
\<close>

definition normalize_offset :: "string \<Rightarrow> string" where
  "normalize_offset s =
     (let (body, nl) = (if s \<noteq> [] \<and> last s = CHR 0x0A then (butlast s, [CHR 0x0A]) else (s, []));
          k = length body - 6;
          t = drop k body
      in if 6 \<le> length body \<and> t ! 0 = CHR ''+'' \<and> is_digit (t ! 1) \<and> is_digit (t ! 2) \<and>
            t ! 3 = CHR '':'' \<and> is_digit (t ! 4) \<and> is_digit (t ! 5)
         then take k body @ ''+'' @ take 3 t @ drop 4 t @ nl
         else s)"

text \<open>One round of the first loop of \<^verbatim>\<open>parse_pub_date\<close> (\<^verbatim>\<open>if t:\<close> skips a missing and
  an empty value), and one round of the second.\<close>

definition try_struct :: "date_lib \<Rightarrow> struct_time option \<Rightarrow> datetime option" where
  "try_struct lib t =
     (case t of None \<Rightarrow> None | Some v \<Rightarrow> if v = [] then None else from_struct lib v)"

definition try_text :: "date_lib \<Rightarrow> string option \<Rightarrow> datetime option" where
  "try_text lib s =
     (case s of
        None \<Rightarrow> None
      | Some v \<Rightarrow>
          if v = [] then None
          else (case from_rfc2822 lib v of
                  Some t \<Rightarrow> Some t
                | None \<Rightarrow> from_iso lib (normalize_offset v)))"

definition parse_pub_date :: "date_lib \<Rightarrow> entry \<Rightarrow> datetime option" where
  "parse_pub_date lib entry =
     (case try_struct lib (e_published_parsed entry) of
        Some d \<Rightarrow> Some d
      | None \<Rightarrow>
     (case try_struct lib (e_updated_parsed entry) of
        Some d \<Rightarrow> Some d
      | None \<Rightarrow>
     (case try_text lib (e_published entry) of
        Some d \<Rightarrow> Some d
      | None \<Rightarrow> try_text lib (e_updated entry))))"

subsection \<open>Collecting the articles\<close>

record article =
  source :: string
  title :: string
  url :: string
  summary :: string
  published :: string
  pub_dt :: string

text \<open>
  \<^verbatim>\<open>re.sub(r"<[^>]+>", "", summary)\<close>: at a \<^verbatim>\<open><\<close> the pattern matches when at least one
  character other than \<^verbatim>\<open>>\<close> follows and the run of such characters ends in a \<^verbatim>\<open>>\<close>;
  the match is deleted and the scan goes on behind it.
\<close>

function strip_tags :: "string \<Rightarrow> string" where
  "strip_tags [] = []"
| "strip_tags (c # cs) =
     (if c = CHR ''<'' \<and> takeWhile (\<lambda>x. x \<noteq> CHR ''>'') cs \<noteq> [] \<and>
         dropWhile (\<lambda>x. x \<noteq> CHR ''>'') cs \<noteq> []
      then strip_tags (tl (dropWhile (\<lambda>x. x \<noteq> CHR ''>'') cs))
      else c # strip_tags cs)"
  by pat_completeness auto
termination
  by (relation "measure length")
     (auto intro: le_imp_less_Suc order_trans[OF diff_le_self] length_dropWhile_le)

text \<open>The values \<^verbatim>\<open>fetch_articles\<close> computes from one entry:
  \<^verbatim>\<open>title = entry.get("title", "")\<close>,
  \<^verbatim>\<open>summary = entry.get("summary", entry.get("description", ""))\<close> and
  \<^verbatim>\<open>summary_clean = re.sub(r"<[^>]+>", "", summary)[:500]\<close>.\<close>

definition entry_title :: "entry \<Rightarrow> string" where
  "entry_title entry = (case e_title entry of Some t \<Rightarrow> t | None \<Rightarrow> [])"

definition entry_summary :: "entry \<Rightarrow> string" where
  "entry_summary entry =
     (case e_summary entry of
        Some s \<Rightarrow> s
      | None \<Rightarrow> (case e_description entry of Some s \<Rightarrow> s | None \<Rightarrow> []))"

definition summary_clean :: "entry \<Rightarrow> string" where
  "summary_clean entry = take 500 (strip_tags (entry_summary entry))"

text \<open>
  The dictionary appended to \<^verbatim>\<open>articles\<close>. The text used for \<^verbatim>\<open>published\<close> when the
  instant is unknown is a Japanese literal ("date unknown") in the source; a stand-in is
  written here. An entry without a link gets the empty string as its url.
\<close>

definition DATE_UNKNOWN :: string where
  "DATE_UNKNOWN = ''date unknown''"

text \<open>\<^verbatim>\<open>pub_dt.isoformat() if pub_dt else ""\<close>, the value stored under \<^verbatim>\<open>pub_dt\<close> and
  later used as the sort key.\<close>

definition pub_dt_text :: "datetime option \<Rightarrow> string" where
  "pub_dt_text pub = (case pub of Some d \<Rightarrow> isoformat ''+00:00'' d | None \<Rightarrow> [])"

definition make_article :: "string \<Rightarrow> entry \<Rightarrow> datetime option \<Rightarrow> article" where
  "make_article feed_name entry pub =
     \<lparr>source = feed_name,
      title = entry_title entry,
      url = (case e_link entry of Some l \<Rightarrow> l | None \<Rightarrow> []),
      summary = summary_clean entry,
      published = (case pub of Some d \<Rightarrow> strftime_published d | None \<Rightarrow> DATE_UNKNOWN),
      pub_dt = pub_dt_text pub\<rparr>"

text \<open>
  The loop over \<^verbatim>\<open>feed.entries\<close> with its state, the counter and the list of articles:
  \<^verbatim>\<open>break\<close> once \<open>max_per_feed\<close> entries of this feed were accepted, \<^verbatim>\<open>continue\<close> on
  an entry whose instant is known and before the cutoff (\<^verbatim>\<open>if pub_dt and pub_dt < cutoff\<close>;
  a datetime is always true, \<open>None\<close> is false), append and count an entry that is
  AI related. The counter \<^verbatim>\<open>skipped_old\<close> is only printed and is left out.
\<close>

fun scan_entries ::
  "date_lib \<Rightarrow> datetime \<Rightarrow> int \<Rightarrow> string \<Rightarrow> entry list \<Rightarrow> int \<Rightarrow> article list \<Rightarrow> article list" where
  "scan_entries lib cutoff max_per_feed feed_name [] count' articles = articles"
| "scan_entries lib cutoff max_per_feed feed_name (entry # rest) count' articles =
     (if max_per_feed \<le> count' then articles
      else
        (let pub = parse_pub_date lib entry
         in if (case pub of Some d \<Rightarrow> dt_less d cutoff | None \<Rightarrow> False)
            then scan_entries lib cutoff max_per_feed feed_name rest count' articles
            else if is_ai_related (entry_title entry) (summary_clean entry)
            then scan_entries lib cutoff max_per_feed feed_name rest (count' + 1)
                   (articles @ [make_article feed_name entry pub])
            else scan_entries lib cutoff max_per_feed feed_name rest count' articles))"

text \<open>
  The loop over \<^verbatim>\<open>RSS_FEEDS\<close>. \<open>parse url\<close> is \<^verbatim>\<open>feedparser.parse(url).entries\<close>;
  \<open>None\<close> stands for an exception, after which the \<^verbatim>\<open>except\<close> branch goes on with the
  next feed.
\<close>

fun collect_feeds ::
  "(string \<Rightarrow> entry list option) \<Rightarrow> date_lib \<Rightarrow> datetime \<Rightarrow> int \<Rightarrow>
   (string \<times> string) list \<Rightarrow> article list \<Rightarrow> article list" where
  "collect_feeds parse lib cutoff max_per_feed [] articles = articles"
| "collect_feeds parse lib cutoff max_per_feed ((feed_name, feed_url) # feeds) articles =
     (case parse feed_url of
        None \<Rightarrow> collect_feeds parse lib cutoff max_per_feed feeds articles
      | Some entries \<Rightarrow>
          collect_feeds parse lib cutoff max_per_feed feeds
            (scan_entries lib cutoff max_per_feed feed_name entries 0 articles))"

subsection \<open>Deduplication and ranking\<close>

text \<open>The loop over \<^verbatim>\<open>articles\<close> with the set \<^verbatim>\<open>seen\<close> and the list \<^verbatim>\<open>unique\<close>.\<close>

fun dedup_loop :: "article list \<Rightarrow> string set \<Rightarrow> article list \<Rightarrow> article list" where
  "dedup_loop [] seen unique = unique"
| "dedup_loop (art # rest) seen unique =
     (if url art \<notin> seen then dedup_loop rest (insert (url art) seen) (unique @ [art])
      else dedup_loop rest seen unique)"

text \<open>
  \<^verbatim>\<open>fetch_articles\<close>, given the time of the run \<open>now_utc\<close>. The list \<open>articles\<close> before
  deduplication has a name of its own, \<open>collected\<close>.
\<close>

definition collected ::
  "(string \<Rightarrow> entry list option) \<Rightarrow> date_lib \<Rightarrow> datetime \<Rightarrow> int \<Rightarrow> article list" where
  "collected parse lib cutoff max_per_feed =
     collect_feeds parse lib cutoff max_per_feed RSS_FEEDS []"

definition fetch_articles ::
  "(string \<Rightarrow> entry list option) \<Rightarrow> date_lib \<Rightarrow> datetime \<Rightarrow> int \<Rightarrow> py_error + article list" where
  "fetch_articles parse lib now_utc max_per_feed =
     (case minus_hours now_utc MAX_ARTICLE_AGE_HOURS of
        None \<Rightarrow> Inl OverflowError
      | Some cutoff \<Rightarrow>
          (let articles = collected parse lib cutoff max_per_feed;
               unique = dedup_loop articles {} []
           in Inr (sort_desc pub_dt unique)))"

text \<open>
  The freshness check in the words of the specification: an entry with a known instant
  passes unless the instant is older than the cutoff, an entry with an unknown instant
  always passes.
\<close>

definition spec_fresh :: "datetime \<Rightarrow> datetime option \<Rightarrow> bool" where
  "spec_fresh cutoff pub = (case pub of Some d \<Rightarrow> \<not> dt_less d cutoff | None \<Rightarrow> True)"

text \<open>
  The ranking order in the words of the specification, on publication instants: \<open>a\<close> may
  stand in front of \<open>b\<close> when \<open>b\<close> is unknown, or when both are known and \<open>a\<close> is not
  older than \<open>b\<close>. An unknown instant never stands in front of a known one.
\<close>

definition spec_not_older :: "datetime option \<Rightarrow> datetime option \<Rightarrow> bool" where
  "spec_not_older pa pb =
     (case pb of
        None \<Rightarrow> True
      | Some db \<Rightarrow> (case pa of None \<Rightarrow> False | Some da \<Rightarrow> \<not> dt_less da db))"

text \<open>
  Python builds no datetime outside the ranges of \<open>valid_datetime\<close>, so the library
  conversions return valid datetimes only.
\<close>

definition valid_instant :: "datetime option \<Rightarrow> bool" where
  "valid_instant pub = (case pub of None \<Rightarrow> True | Some d \<Rightarrow> valid_datetime d)"

definition lib_valid :: "date_lib \<Rightarrow> bool" where
  "lib_valid lib =
     ((\<forall>t. valid_instant (from_struct lib t)) \<and>
      (\<forall>s. valid_instant (from_rfc2822 lib s)) \<and>
      (\<forall>s. valid_instant (from_iso lib s)))"

section \<open>fetch\_news.py: the summarization orchestrator\<close>

subsection \<open>JSON values and the backend\<close>

text \<open>
  The values of the \<^verbatim>\<open>json\<close> module: a dictionary is the list of its items in insertion
  order. A string value is given by its code points: a value parsed from a response can
  hold any code point, since an escape such as \<^verbatim>\<open>\ud83d\<close> names it in ASCII, a lone
  surrogate included. The keys are texts of the model. Numbers with a fraction do not
  occur in what the program builds and are left out.
\<close>

datatype json =
    JNull
  | JBool bool
  | JInt int
  | JStr "int list"
  | JArr "json list"
  | JObj "(string \<times> json) list"

text \<open>The code points of a text of the model.\<close>

definition codepoints :: "string \<Rightarrow> int list" where
  "codepoints s = map of_char s"

text \<open>
  What \<^verbatim>\<open>client.models.generate_content(model=model_name, contents=prompt_news)\<close> does for
  one candidate: it raises an exception, given by its text \<^verbatim>\<open>str(e)\<close>, or it returns a
  response whose \<^verbatim>\<open>text\<close> is a string or \<^verbatim>\<open>None\<close>. The prompt is the same for every
  candidate of a run and each candidate is invoked at most once, so the backend is a
  function of the candidate's name. \<^verbatim>\<open>json.loads\<close> is a parameter as well: it returns the
  parsed value or raises, and the exception is again given by its text.
\<close>

datatype outcome = Raised string | Text "string option"

subsection \<open>Extraction of the JSON text\<close>

text \<open>
  \<^verbatim>\<open>re.sub(marker + r"\s*", "", text)\<close> for a marker without special characters: every
  occurrence of the marker, found from left to right, is deleted together with the white
  space that follows it.
\<close>

function remove_marker :: "string \<Rightarrow> string \<Rightarrow> string" where
  "remove_marker m [] = []"
| "remove_marker m (c # cs) =
     (if m \<noteq> [] \<and> startswith (c # cs) m
      then remove_marker m (dropWhile is_space (drop (length m) (c # cs)))
      else c # remove_marker m cs)"
  by pat_completeness auto
termination
proof (relation "measure (\<lambda>(m, s). length s)")
  show "wf (measure (\<lambda>(m, s). length s))" by simp
next
  fix m :: string and c cs
  assume "m \<noteq> [] \<and> startswith (c # cs) m"
  then obtain x xs where m: "m = x # xs" by (cases m) auto
  have "length (dropWhile is_space (drop (length m) (c # cs)))
          \<le> length (drop (length m) (c # cs))"
    by (rule length_dropWhile_le)
  also have "\<dots> \<le> length cs" by (simp add: m)
  finally show "((m, dropWhile is_space (drop (length m) (c # cs))), (m, c # cs))
                  \<in> measure (\<lambda>(m, s). length s)"
    by simp
next
  fix m :: string and c cs
  show "((m, cs), (m, c # cs)) \<in> measure (\<lambda>(m, s). length s)" by simp
qed

text \<open>
  \<^verbatim>\<open>re.search(r'\{[\s\S]*\}', text)\<close>: the match starts at the first opening brace and,
  the star being greedy, ends at the last closing brace of the text; there is no match
  when no closing brace follows the first opening one.
\<close>

definition search_object :: "string \<Rightarrow> string option" where
  "search_object text =
     (case dropWhile (\<lambda>c. c \<noteq> CHR ''{'') text of
        [] \<Rightarrow> None
      | b # rest \<Rightarrow>
          (let r = dropWhile (\<lambda>c. c \<noteq> CHR ''}'') (rev rest)
           in if r = [] then None else Some (b # rev r)))"

text \<open>The three lines that turn the response text into the text handed to
  \<^verbatim>\<open>json.loads\<close>.\<close>

definition extract_json :: "string \<Rightarrow> string option" where
  "extract_json response_text =
     search_object (remove_marker ''```'' (remove_marker ''```json'' response_text))"

subsection \<open>The candidate loop\<close>

definition models_to_try :: "string list" where
  "models_to_try =
     [''gemini-2.0-flash'', ''gemini-2.0-flash-lite'', ''gemini-2.5-flash'',
      ''gemini-flash-lite-latest'']"

text \<open>
  The texts of the two exceptions the \<^verbatim>\<open>try\<close> body raises by itself: the TypeError of
  \<^verbatim>\<open>re.sub\<close> on a response without text, and the ValueError raised when no brace pair is
  found, whose message is a Japanese sentence ("JSON not found") in the source; neither
  holds the digits 429 nor the word quota.
\<close>

definition NO_TEXT_ERROR :: string where
  "NO_TEXT_ERROR = ''expected string or bytes-like object''"

definition NO_JSON_ERROR :: string where
  "NO_JSON_ERROR = ''JSON not found''"

text \<open>The body of the \<^verbatim>\<open>try\<close>: the parsed result, or the text of the exception raised.\<close>

definition attempt :: "(string \<Rightarrow> string + json) \<Rightarrow> outcome \<Rightarrow> string + json" where
  "attempt loads out =
     (case out of
        Raised msg \<Rightarrow> Inl msg
      | Text None \<Rightarrow> Inl NO_TEXT_ERROR
      | Text (Some response_text) \<Rightarrow>
          (case extract_json response_text of
             Some span \<Rightarrow> loads span
           | None \<Rightarrow> Inl NO_JSON_ERROR))"

text \<open>The test of the \<^verbatim>\<open>except\<close> branch:
  \<^verbatim>\<open>"429" in err_str or "quota" in err_str.lower()\<close>.\<close>

definition is_rate_limit :: "string \<Rightarrow> bool" where
  "is_rate_limit err_str = (str_contains err_str ''429'' \<or> str_contains (lower err_str) ''quota'')"

text \<open>
  The loop over \<^verbatim>\<open>models_to_try\<close>. The result is the list of the candidates that were
  invoked, in the order of their invocation, and the value returned from inside the loop,
  or \<open>None\<close> when the loop ended by \<^verbatim>\<open>break\<close> or ran out of candidates.
\<close>

fun try_models ::
  "(string \<Rightarrow> outcome) \<Rightarrow> (string \<Rightarrow> string + json) \<Rightarrow> string list \<Rightarrow> string list \<times> json option" where
  "try_models invoke loads [] = ([], None)"
| "try_models invoke loads (model_name # rest) =
     (case attempt loads (invoke model_name) of
        Inr result \<Rightarrow> ([model_name], Some result)
      | Inl err_str \<Rightarrow>
          if is_rate_limit err_str
          then (case try_models invoke loads rest of (invoked, r) \<Rightarrow> (model_name # invoked, r))
          else ([model_name], None))"

subsection \<open>The fallback\<close>

text \<open>The fixed texts of \<^verbatim>\<open>_dummy_summary\<close> are Japanese sentences in the source; short
  stand-ins are written here.\<close>

definition DUMMY_NEWS_SUMMARY :: string where
  "DUMMY_NEWS_SUMMARY = ''[test mode] no API key is set, no summary was generated''"

definition DUMMY_OPINION_SUMMARY :: string where
  "DUMMY_OPINION_SUMMARY = ''[test mode] the opinion analysis needs an API key''"

definition DUMMY_SENTIMENT :: string where
  "DUMMY_SENTIMENT = ''generated once an API key is set''"

definition top_article :: "nat \<times> article \<Rightarrow> json" where
  "top_article p =
     (case p of (i, art) \<Rightarrow>
        JObj [(''rank'', JInt (int i)),
              (''title'', JStr (codepoints (title art))),
              (''source'', JStr (codepoints (source art))),
              (''url'', JStr (codepoints (url art))),
              (''point'', JStr (codepoints (take 50 (summary art) @ ''...'')))])"

definition dummy_summary :: "article list \<Rightarrow> json" where
  "dummy_summary articles =
     (let top = take 10 articles;
          top_articles = map top_article (List.enumerate 1 top)
      in JObj [(''news_summary'', JStr (codepoints DUMMY_NEWS_SUMMARY)),
               (''opinion_summary'', JStr (codepoints DUMMY_OPINION_SUMMARY)),
               (''sentiment'', JObj [(''positive'', JStr (codepoints DUMMY_SENTIMENT)),
                                     (''negative'', JStr (codepoints DUMMY_SENTIMENT)),
                                     (''neutral'', JStr (codepoints DUMMY_SENTIMENT))]),
               (''top_articles'', JArr top_articles),
               (''joho_picks'', JArr [])])"

text \<open>
  \<^verbatim>\<open>summarize_with_gemini\<close>, with the API key, the backend and \<^verbatim>\<open>json.loads\<close> as
  parameters. It returns the candidates it invoked next to its result.
\<close>

definition summarize_with_gemini ::
  "string \<Rightarrow> (string \<Rightarrow> outcome) \<Rightarrow> (string \<Rightarrow> string + json) \<Rightarrow> article list
   \<Rightarrow> string list \<times> json" where
  "summarize_with_gemini api_key invoke loads articles =
     (if api_key = [] then ([], dummy_summary articles)
      else (case try_models invoke loads models_to_try of
              (invoked, Some result) \<Rightarrow> (invoked, result)
            | (invoked, None) \<Rightarrow> (invoked, dummy_summary articles)))"

subsection \<open>The first balanced object, in the words of the specification\<close>

text \<open>
  The specification speaks of the first balanced JSON object of the text. Read from an
  opening brace, \<open>balanced_prefix\<close> follows the text up to the brace that closes it,
  counting nested braces and stepping over string literals; \<open>spec_first_balanced_object\<close>
  is the first such object, tried from the leftmost opening brace on.
\<close>

fun balanced_prefix :: "nat \<Rightarrow> bool \<Rightarrow> string \<Rightarrow> string option" where
  "balanced_prefix d in_string [] = None"
| "balanced_prefix d True [c] = None"
| "balanced_prefix d True (c # e # cs) =
     (if c = CHR 0x5C then map_option (\<lambda>r. c # e # r) (balanced_prefix d True cs)
      else if c = CHR 0x22 then map_option ((#) c) (balanced_prefix d False (e # cs))
      else map_option ((#) c) (balanced_prefix d True (e # cs)))"
| "balanced_prefix d False (c # cs) =
     (if c = CHR 0x22 then map_option ((#) c) (balanced_prefix d True cs)
      else if c = CHR ''{'' then map_option ((#) c) (balanced_prefix (Suc d) False cs)
      else if c = CHR ''}'' then
        (if d = 0 then Some [c] else map_option ((#) c) (balanced_prefix (d - 1) False cs))
      else map_option ((#) c) (balanced_prefix d False cs))"

fun spec_first_balanced_object :: "string \<Rightarrow> string option" where
  "spec_first_balanced_object [] = None"
| "spec_first_balanced_object (c # cs) =
     (if c = CHR ''{'' then
        (case balanced_prefix 0 False cs of
           Some r \<Rightarrow> Some (c # r)
         | None \<Rightarrow> spec_first_balanced_object cs)
      else spec_first_balanced_object cs)"

section \<open>fetch\_news.py: the persistence store\<close>

text \<open>The data directory is a map from file names to file contents.\<close>

type_synonym files = "string \<rightharpoonup> string"

text \<open>The labels of \<^verbatim>\<open>get_time_slot\<close> are single Japanese words in the source (morning,
  noon, evening, night).\<close>

definition get_time_slot :: "datetime \<Rightarrow> string" where
  "get_time_slot now =
     (if 5 \<le> hour now \<and> hour now < 11 then ''morning''
      else if 11 \<le> hour now \<and> hour now < 15 then ''noon''
      else if 15 \<le> hour now \<and> hour now < 18 then ''evening''
      else ''night'')"

definition article_json :: "article \<Rightarrow> json" where
  "article_json art =
     JObj [(''source'', JStr (codepoints (source art))), (''title'', JStr (codepoints (title art))),
           (''url'', JStr (codepoints (url art))), (''summary'', JStr (codepoints (summary art))),
           (''published'', JStr (codepoints (published art))),
           (''pub_dt'', JStr (codepoints (pub_dt art)))]"

text \<open>
  The dictionary \<^verbatim>\<open>data\<close> of \<^verbatim>\<open>save_data\<close>. \<open>now\<close> is the clock read by \<^verbatim>\<open>save_data\<close>
  itself and \<open>slot_now\<close> the one read by \<^verbatim>\<open>get_time_slot\<close>, both in the +09:00 zone.
\<close>

definition snapshot_data :: "datetime \<Rightarrow> datetime \<Rightarrow> json \<Rightarrow> article list \<Rightarrow> json" where
  "snapshot_data now slot_now summary' articles =
     JObj [(''timestamp'', JStr (codepoints (isoformat ''+09:00'' now))),
           (''time_slot'', JStr (codepoints (get_time_slot slot_now))),
           (''summary'', summary'),
           (''raw_articles'', JArr (map article_json (take 15 articles)))]"

text \<open>
  Writing a file,
  \<^verbatim>\<open>with open(path, "w", encoding="utf-8") as f: json.dump(data, f, ensure_ascii=False, indent=2)\<close>.
  \<^verbatim>\<open>open\<close> empties the file. \<^verbatim>\<open>json.dump\<close> hands its text to \<^verbatim>\<open>f.write\<close> piece by piece:
  \<open>dump ensure_ascii indent data\<close> is the list of these pieces, each given by its code
  points. \<^verbatim>\<open>f.write\<close> encodes a piece as a whole: \<open>encode encoding piece\<close> is the bytes it adds to
  the file, or \<open>None\<close> when the piece holds a character that the encoding cannot encode (for
  utf-8, a lone surrogate); then \<^verbatim>\<open>f.write\<close> raises UnicodeEncodeError and adds nothing. The
  \<^verbatim>\<open>with\<close> block closes the file, which keeps the pieces written so far, and the exception
  leaves \<^verbatim>\<open>save_data\<close>. The file system itself is taken to work.
\<close>

datatype write_result = Complete string | Truncated string

fun write_pieces :: "(int list \<Rightarrow> string option) \<Rightarrow> int list list \<Rightarrow> write_result" where
  "write_pieces enc [] = Complete []"
| "write_pieces enc (piece # rest) =
     (case enc piece of
        None \<Rightarrow> Truncated []
      | Some bytes \<Rightarrow>
          (case write_pieces enc rest of
             Complete written \<Rightarrow> Complete (bytes @ written)
           | Truncated written \<Rightarrow> Truncated (bytes @ written)))"

definition write_json ::
  "(bool \<Rightarrow> nat \<Rightarrow> json \<Rightarrow> int list list) \<Rightarrow> (string \<Rightarrow> int list \<Rightarrow> string option) \<Rightarrow>
   files \<Rightarrow> string \<Rightarrow> json \<Rightarrow> files \<times> py_error option" where
  "write_json dump encode files path data =
     (case write_pieces (encode ''utf-8'') (dump False 2 data) of
        Complete bytes \<Rightarrow> (files(path \<mapsto> bytes), None)
      | Truncated bytes \<Rightarrow> (files(path \<mapsto> bytes), Some UnicodeEncodeError))"

text \<open>
  \<^verbatim>\<open>save_data\<close>, on a platform whose \<^verbatim>\<open>%Y\<close> pads the year to \<open>ypad\<close> digits. The result is
  the new state of the directory and the returned path, or the exception that left the
  function.
\<close>

definition save_data ::
  "nat \<Rightarrow> (bool \<Rightarrow> nat \<Rightarrow> json \<Rightarrow> int list list) \<Rightarrow> (string \<Rightarrow> int list \<Rightarrow> string option) \<Rightarrow>
   datetime \<Rightarrow> datetime \<Rightarrow> files \<Rightarrow> json \<Rightarrow> article list \<Rightarrow> files \<times> (py_error + string)" where
  "save_data ypad dump encode now slot_now files summary' articles =
     (let timestamp = strftime_stamp ypad now;
          data = snapshot_data now slot_now summary' articles;
          filepath = ''news_'' @ timestamp @ ''.json''
      in case write_json dump encode files filepath data of
           (files1, Some err) \<Rightarrow> (files1, Inl err)
         | (files1, None) \<Rightarrow>
             (let latest_path = ''latest.json''
              in case write_json dump encode files1 latest_path data of
                   (files2, Some err) \<Rightarrow> (files2, Inl err)
                 | (files2, None) \<Rightarrow> (files2, Inr filepath)))"

text \<open>
  The utf-8 codec with strict error handling, on a platform that writes a line end as it
  is: every code point but a surrogate has its bytes.
\<close>

definition utf8_char :: "int \<Rightarrow> string" where
  "utf8_char c =
     (if c < 0x80 then [char_of c]
      else if c < 0x800 then [char_of (0xC0 + c div 0x40), char_of (0x80 + c mod 0x40)]
      else if c < 0x10000 then
        [char_of (0xE0 + c div 0x1000), char_of (0x80 + c div 0x40 mod 0x40),
         char_of (0x80 + c mod 0x40)]
      else
        [char_of (0xF0 + c div 0x40000), char_of (0x80 + c div 0x1000 mod 0x40),
         char_of (0x80 + c div 0x40 mod 0x40), char_of (0x80 + c mod 0x40)])"

definition is_surrogate :: "int \<Rightarrow> bool" where
  "is_surrogate c = (0xD800 \<le> c \<and> c \<le> 0xDFFF)"

definition utf8_strict :: "int list \<Rightarrow> string option" where
  "utf8_strict piece =
     (if list_ex is_surrogate piece then None else Some (concat (map utf8_char piece)))"

text \<open>
  \<^verbatim>\<open>DATA_DIR.glob("news_*.json")\<close> keeps the names that start with \<^verbatim>\<open>news_\<close> and end with
  \<^verbatim>\<open>.json\<close>, the two parts not overlapping.
\<close>

definition is_news_file :: "string \<Rightarrow> bool" where
  "is_news_file name = (10 \<le> length name \<and> startswith name ''news_'' \<and> endswith name ''.json'')"

text \<open>
  The loop of \<^verbatim>\<open>load_history\<close> over the chosen files: a file that cannot be opened
  (\<open>None\<close> in the directory) or whose content does not parse raises inside the \<^verbatim>\<open>try\<close>
  and is skipped by \<^verbatim>\<open>continue\<close>.
\<close>

fun read_files ::
  "files \<Rightarrow> (string \<Rightarrow> string + json) \<Rightarrow> string list \<Rightarrow> json list \<Rightarrow> json list" where
  "read_files files loads [] history = history"
| "read_files files loads (f # fs) history =
     (case files f of
        None \<Rightarrow> read_files files loads fs history
      | Some content \<Rightarrow>
          (case loads content of
             Inl err \<Rightarrow> read_files files loads fs history
           | Inr data \<Rightarrow> read_files files loads fs (history @ [data])))"

text \<open>\<^verbatim>\<open>load_history\<close>; \<open>listing\<close> holds the names of the directory in the order in which
  the file system reports them.\<close>

definition load_history :: "string list \<Rightarrow> files \<Rightarrow> (string \<Rightarrow> string + json) \<Rightarrow> json list" where
  "load_history listing files loads =
     (let data_files = sort_desc (\<lambda>f. f) (filter is_news_file listing)
      in read_files files loads (take 12 data_files) [])"

text \<open>What reading one file yields, and the name \<^verbatim>\<open>save_data\<close> gives to the snapshot of a
  run at \<open>now\<close> on a platform that pads the year to \<open>ypad\<close> digits.\<close>

definition read_json :: "files \<Rightarrow> (string \<Rightarrow> string + json) \<Rightarrow> string \<Rightarrow> json option" where
  "read_json files loads f =
     (case files f of
        None \<Rightarrow> None
      | Some content \<Rightarrow> (case loads content of Inl err \<Rightarrow> None | Inr data \<Rightarrow> Some data))"

definition snapshot_name :: "nat \<Rightarrow> datetime \<Rightarrow> string" where
  "snapshot_name ypad now = ''news_'' @ strftime_stamp ypad now @ ''.json''"

section \<open>scheduler\_loop.py\<close>

definition SCHEDULE_HOURS :: "nat list" where
  "SCHEDULE_HOURS = [6, 12, 16, 20]"

text \<open>\<^verbatim>\<open>now.replace(hour=h, minute=0, second=0, microsecond=0)\<close>\<close>

definition replace_hour :: "datetime \<Rightarrow> nat \<Rightarrow> datetime" where
  "replace_hour now h = now\<lparr>hour := h, minute := 0, second := 0, microsecond := 0\<rparr>"

text \<open>The \<^verbatim>\<open>for hour in SCHEDULE_HOURS\<close> loop of \<^verbatim>\<open>get_next_run\<close>, returning at the
  first candidate after \<open>now\<close>; \<open>None\<close> when the loop runs to its end.\<close>

fun first_candidate :: "datetime \<Rightarrow> nat list \<Rightarrow> datetime option" where
  "first_candidate now [] = None"
| "first_candidate now (h # hs) =
     (let candidate = replace_hour now h
      in if dt_less now candidate then Some candidate else first_candidate now hs)"

definition get_next_run :: "datetime \<Rightarrow> py_error + datetime" where
  "get_next_run now =
     (case first_candidate now SCHEDULE_HOURS of
        Some candidate \<Rightarrow> Inr candidate
      | None \<Rightarrow>
          (case add_one_day now of
             None \<Rightarrow> Inl OverflowError
           | Some tomorrow \<Rightarrow> Inr (replace_hour tomorrow (SCHEDULE_HOURS ! 0))))"

text \<open>A configured daily trigger time: one of the schedule's hours, on the hour.\<close>

definition is_trigger_time :: "datetime \<Rightarrow> bool" where
  "is_trigger_time t =
     (hour t \<in> set SCHEDULE_HOURS \<and> minute t = 0 \<and> second t = 0 \<and> microsecond t = 0)"

section \<open>A concrete run\<close>

text \<open>
  A small world on which the theorems below are exercised: two of the configured feeds
  answer, the others fail. The first feed has an undated entry without a link, an entry
  dated three days before the run, a dated entry without a link and an entry that is not
  about AI; the second has two entries with the same link.
\<close>

definition example_now :: datetime where
  "example_now = \<lparr>year = 2024, month = 3, day = 1, hour = 3, minute = 0, second = 0, microsecond = 0\<rparr>"

definition example_lib :: date_lib where
  "example_lib =
     \<lparr>from_struct = (\<lambda>t. None),
      from_rfc2822 = (\<lambda>s.
        if s = ''Thu, 29 Feb 2024 21:00:00 GMT''
        then Some \<lparr>year = 2024, month = 2, day = 29, hour = 21, minute = 0, second = 0, microsecond = 0\<rparr>
        else if s = ''Mon, 26 Feb 2024 21:00:00 GMT''
        then Some \<lparr>year = 2024, month = 2, day = 26, hour = 21, minute = 0, second = 0, microsecond = 0\<rparr>
        else None),
      from_iso = (\<lambda>s. None)\<rparr>"

definition example_entry :: "string \<Rightarrow> string option \<Rightarrow> string option \<Rightarrow> entry" where
  "example_entry t l p =
     \<lparr>e_title = Some t, e_summary = None, e_description = None, e_link = l,
      e_published_parsed = None, e_updated_parsed = None, e_published = p, e_updated = None\<rparr>"

definition example_parse :: "string \<Rightarrow> entry list option" where
  "example_parse feed_url =
     (if feed_url = ''https://venturebeat.com/feed/'' then
        Some [example_entry ''AI one'' None None,
              example_entry ''AI old'' (Some ''u1'') (Some ''Mon, 26 Feb 2024 21:00:00 GMT''),
              example_entry ''AI two'' None (Some ''Thu, 29 Feb 2024 21:00:00 GMT''),
              example_entry ''Cats'' (Some ''u2'') (Some ''Thu, 29 Feb 2024 21:00:00 GMT'')]
      else if feed_url = ''https://www.wired.com/feed/rss'' then
        Some [example_entry ''AI three'' (Some ''u3'') (Some ''Thu, 29 Feb 2024 21:00:00 GMT''),
              example_entry ''AI four'' (Some ''u3'') None]
      else None)"

definition example_ranked :: "article list" where
  "example_ranked =
     [\<lparr>source = ''Wired'', title = ''AI three'', url = ''u3'', summary = [],
       published = ''2024-02-29 21:00 UTC'', pub_dt = ''2024-02-29T21:00:00+00:00''\<rparr>,
      \<lparr>source = ''VentureBeat'', title = ''AI one'', url = [], summary = [],
       published = ''date unknown'', pub_dt = []\<rparr>]"

text \<open>A backend whose first candidate is rate limited, whose second candidate answers with
  a fenced object and whose other candidates fail, and a parser that knows one object.\<close>

definition example_invoke :: "string \<Rightarrow> outcome" where
  "example_invoke model_name =
     (if model_name = ''gemini-2.0-flash'' then Raised ''429 RESOURCE_EXHAUSTED''
      else if model_name = ''gemini-2.0-flash-lite'' then Text (Some ''```json {} ```'')
      else Raised ''500 INTERNAL'')"

definition example_loads :: "string \<Rightarrow> string + json" where
  "example_loads s = (if s = ''{}'' then Inr (JObj []) else Inl ''Expecting value'')"

text \<open>
  A data directory with the snapshots of three days, four a day, listed in no particular
  order next to the latest file. Each file holds its own name as a JSON string, except
  the snapshot of the second day's noon, the seventh most recent, which is cut off.
\<close>

definition example_listing :: "string list" where
  "example_listing =
     [''latest.json'',
      ''news_20240302_0600.json'', ''news_20240302_1200.json'',
      ''news_20240302_1600.json'', ''news_20240302_2000.json'',
      ''news_20240301_0600.json'', ''news_20240301_1200.json'',
      ''news_20240301_1600.json'', ''news_20240301_2000.json'',
      ''news_20240303_0600.json'', ''news_20240303_1200.json'',
      ''news_20240303_1600.json'', ''news_20240303_2000.json'']"

definition example_files :: files where
  "example_files name =
     (if name = ''news_20240302_1200.json'' then Some ''{cut off'' else Some name)"

definition example_file_loads :: "string \<Rightarrow> string + json" where
  "example_file_loads content =
     (if content = ''{cut off'' then Inl ''Expecting property name'' else Inr (JStr (codepoints content)))"

definition example_recent :: "string list" where
  "example_recent =
     [''news_20240303_2000.json'', ''news_20240303_1600.json'',
      ''news_20240303_1200.json'', ''news_20240303_0600.json'',
      ''news_20240302_2000.json'', ''news_20240302_1600.json'',
      ''news_20240302_1200.json'', ''news_20240302_0600.json'',
      ''news_20240301_2000.json'', ''news_20240301_1600.json'',
      ''news_20240301_1200.json'', ''news_20240301_0600.json'']"

text \<open>
  A serializer that writes each key and each string value of the data as one piece, a
  directory that already holds a latest file, and two summaries as a candidate may return
  them: the second one holds a lone surrogate, what \<^verbatim>\<open>json.loads\<close> makes of the escape
  \<^verbatim>\<open>\ud83d\<close>.
\<close>

fun example_pieces :: "json \<Rightarrow> int list list" where
  "example_pieces (JStr s) = [s]"
| "example_pieces (JArr xs) = concat (map example_pieces xs)"
| "example_pieces (JObj items) =
     concat (map (\<lambda>item. codepoints (fst item) # example_pieces (snd item)) items)"
| "example_pieces v = []"

definition example_dump :: "bool \<Rightarrow> nat \<Rightarrow> json \<Rightarrow> int list list" where
  "example_dump ensure_ascii indent data = example_pieces data"

definition example_encode :: "string \<Rightarrow> int list \<Rightarrow> string option" where
  "example_encode encoding piece = utf8_strict piece"

definition example_old_files :: files where
  "example_old_files = Map.empty(''latest.json'' \<mapsto> ''OLD'')"


definition example_surrogate_summary :: json where
  "example_surrogate_summary = JObj [(''news_summary'', JStr [0x6F, 0x6B, 0x20, 0xD83D])]"

section \<open>Formatted numbers and dates compare like the numbers and dates\<close>

lemma lex_append_same_length:
  fixes xs ys :: "'a::linorder list"
  assumes "length xs = length ys"
  shows "(xs @ u < ys @ v) = (xs < ys \<or> xs = ys \<and> u < v)"
  using assms by (induction xs ys rule: list_induct2) auto

lemma digit_char_less: "a < 10 \<Longrightarrow> b < 10 \<Longrightarrow> (digit_char a < digit_char b) = (a < b)"
  by (simp add: digit_char_def less_char_def)

lemma digit_char_eq: "a < 10 \<Longrightarrow> b < 10 \<Longrightarrow> (digit_char a = digit_char b) = (a = b)"
proof -
  assume "a < 10" "b < 10"
  then have "of_char (digit_char a) = 48 + a" "of_char (digit_char b) = 48 + b"
    by (simp_all add: digit_char_def)
  then show ?thesis by (metis add_left_cancel)
qed

lemma digit_char_zero: "digit_char 0 = CHR ''0''"
  unfolding digit_char_def by code_simp

lemma fmt_d_zero: "fmt_d w 0 = replicate (w - 1) (CHR ''0'') @ [CHR ''0'']"
  by (simp add: fmt_d.simps[of w 0] digit_char_zero)

lemma fmt_d_step:
  assumes "1 \<le> w"
  shows "fmt_d (Suc w) n = fmt_d w (n div 10) @ [digit_char (n mod 10)]"
proof (cases "n < 10")
  case True
  then have "fmt_d (Suc w) n = replicate w (CHR ''0'') @ [digit_char n]"
    by (simp add: fmt_d.simps[of "Suc w" n])
  moreover from assms have "replicate w (CHR ''0'') = replicate (w - 1) (CHR ''0'') @ [CHR ''0'']"
    by (cases w) (simp_all add: replicate_append_same)
  ultimately show ?thesis using True by (simp add: fmt_d_zero)
next
  case False
  then show ?thesis by (simp add: fmt_d.simps[of "Suc w" n])
qed

lemma lex_base10:
  fixes q1 q2 r1 r2 :: nat
  assumes "r1 < 10" "r2 < 10"
  shows "(10 * q1 + r1 < 10 * q2 + r2) = (q1 < q2 \<or> q1 = q2 \<and> r1 < r2)"
  using assms by auto

lemma div_mod_less:
  "((n::nat) < m) = (n div 10 < m div 10 \<or> n div 10 = m div 10 \<and> n mod 10 < m mod 10)"
  using lex_base10[of "n mod 10" "m mod 10" "n div 10" "m div 10"] by simp

lemma div_mod_eq: "((n::nat) = m) = (n div 10 = m div 10 \<and> n mod 10 = m mod 10)"
  by (metis div_mult_mod_eq)

lemma fmt_d_fixed:
  assumes "1 \<le> w" "n < 10 ^ w" "m < 10 ^ w"
  shows "length (fmt_d w n) = w \<and> (fmt_d w n < fmt_d w m) = (n < m) \<and> (fmt_d w n = fmt_d w m) = (n = m)"
  using assms
proof (induction w arbitrary: n m)
  case 0
  then show ?case by simp
next
  case (Suc w)
  show ?case
  proof (cases "w = 0")
    case True
    with Suc.prems have "n < 10" "m < 10" by simp_all
    then show ?thesis
      by (simp add: True fmt_d.simps[of "Suc 0"] digit_char_less digit_char_eq)
  next
    case False
    then have w: "1 \<le> w" by simp
    from Suc.prems have b: "n div 10 < 10 ^ w" "m div 10 < 10 ^ w"
      by (simp_all add: less_mult_imp_div_less mult.commute)
    note ih1 = Suc.IH[OF w b(1) b(2)] 
    note ih2 = Suc.IH[OF w b(2) b(1)]
    have len: "length (fmt_d w (n div 10)) = length (fmt_d w (m div 10))"
      using ih1 ih2 by simp
    have "(fmt_d (Suc w) n < fmt_d (Suc w) m) = (n < m)"
      unfolding fmt_d_step[OF w] lex_append_same_length[OF len]
      using ih1 by (simp add: digit_char_less digit_char_eq div_mod_less[of n m])
    moreover have "(fmt_d (Suc w) n = fmt_d (Suc w) m) = (n = m)"
      unfolding fmt_d_step[OF w]
      using ih1 by (simp add: digit_char_eq div_mod_eq[of n m])
    moreover have "length (fmt_d (Suc w) n) = Suc w"
      unfolding fmt_d_step[OF w] using ih1 by simp
    ultimately show ?thesis by simp
  qed
qed

lemma fmt_d_cmp:
  assumes "1 \<le> w" "n < 10 ^ w" "m < 10 ^ w"
  shows "length (fmt_d w n) = length (fmt_d w m)"
    and "(fmt_d w n < fmt_d w m) = (n < m)"
    and "(fmt_d w n = fmt_d w m) = (n = m)"
  using fmt_d_fixed[OF assms] fmt_d_fixed[OF assms(1) assms(3) assms(2)] by simp_all

lemma lex_field:
  fixes x1 x2 r1 r2 :: "'a::linorder list" and p q :: "'p::linorder" and R R' :: "'r::linorder"
  assumes "length x1 = length x2" "(x1 < x2) = (p < q)" "(x1 = x2) = (p = q)"
    "(r1 < r2) = (R < R')" "(r1 = r2) = (R = R')"
  shows "(x1 @ sep @ r1 < x2 @ sep @ r2) = ((p, R) < (q, R'))"
    and "(x1 @ sep @ r1 = x2 @ sep @ r2) = ((p, R) = (q, R'))"
proof -
  have s: "(sep @ r1 < sep @ r2) = (r1 < r2)"
    by (simp add: lex_append_same_length)
  show "(x1 @ sep @ r1 < x2 @ sep @ r2) = ((p, R) < (q, R'))"
    unfolding lex_append_same_length[OF assms(1)] s using assms(2-5) by auto
  show "(x1 @ sep @ r1 = x2 @ sep @ r2) = ((p, R) = (q, R'))"
    using assms(1,3,5) by simp
qed

lemma lex_field_fmt:
  fixes r1 r2 :: string and R R' :: "'r::linorder"
  assumes "1 \<le> w" "n < 10 ^ w" "m < 10 ^ w" "(r1 < r2) = (R < R')" "(r1 = r2) = (R = R')"
  shows "(fmt_d w n @ sep @ r1 < fmt_d w m @ sep @ r2) = ((n, R) < (m, R'))"
    and "(fmt_d w n @ sep @ r1 = fmt_d w m @ sep @ r2) = ((n, R) = (m, R'))"
  using lex_field[OF fmt_d_cmp[OF assms(1-3)] assms(4,5)] by blast+

lemma days_in_month_le: "days_in_month y m \<le> 31"
  by (simp add: days_in_month_def)

lemma valid_datetime_bounds:
  assumes "valid_datetime d"
  shows "year d < 10 ^ 4" "month d < 10 ^ 2" "day d < 10 ^ 2" "hour d < 10 ^ 2"
    "minute d < 10 ^ 2" "second d < 10 ^ 2" "microsecond d < 10 ^ 6"
  using assms days_in_month_le[of "year d" "month d"] by (simp_all add: valid_datetime_def)

lemma iso_tail_cmp:
  assumes "valid_datetime a" "valid_datetime b"
  shows "(((if microsecond a \<noteq> 0 then ''.'' @ fmt_d 6 (microsecond a) else []) @ ''+00:00'')
          < ((if microsecond b \<noteq> 0 then ''.'' @ fmt_d 6 (microsecond b) else []) @ ''+00:00''))
         = (microsecond a < microsecond b)"
    and "(((if microsecond a \<noteq> 0 then ''.'' @ fmt_d 6 (microsecond a) else []) @ ''+00:00'')
          = ((if microsecond b \<noteq> 0 then ''.'' @ fmt_d 6 (microsecond b) else []) @ ''+00:00''))
         = (microsecond a = microsecond b)"
proof -
  have six: "(1::nat) \<le> 6" by simp
  note c = fmt_d_cmp[OF six valid_datetime_bounds(7)[OF assms(1)] valid_datetime_bounds(7)[OF assms(2)]]
  have pl: "CHR ''+'' < CHR ''.''" "CHR ''+'' \<noteq> CHR ''.''" by simp_all
  show "(((if microsecond a \<noteq> 0 then ''.'' @ fmt_d 6 (microsecond a) else []) @ ''+00:00'')
          < ((if microsecond b \<noteq> 0 then ''.'' @ fmt_d 6 (microsecond b) else []) @ ''+00:00''))
         = (microsecond a < microsecond b)"
    using c pl by (auto simp: lex_append_same_length)
  show "(((if microsecond a \<noteq> 0 then ''.'' @ fmt_d 6 (microsecond a) else []) @ ''+00:00'')
          = ((if microsecond b \<noteq> 0 then ''.'' @ fmt_d 6 (microsecond b) else []) @ ''+00:00''))
         = (microsecond a = microsecond b)"
    using c pl by auto
qed

lemma isoformat_cmp:
  assumes a: "valid_datetime a" and b: "valid_datetime b"
  shows "(isoformat ''+00:00'' a < isoformat ''+00:00'' b) = dt_less a b"
    and "(isoformat ''+00:00'' a = isoformat ''+00:00'' b) = (dt_fields a = dt_fields b)"
proof -
  have two: "(1::nat) \<le> 2" and four: "(1::nat) \<le> 4" by simp_all
  note va = valid_datetime_bounds[OF a] and vb = valid_datetime_bounds[OF b]
  note l6 = lex_field_fmt[where sep = "[]", unfolded append_Nil, OF two va(6) vb(6) iso_tail_cmp[OF a b]]
  note l5 = lex_field_fmt[where sep = "'':''", OF two va(5) vb(5) l6]
  note l4 = lex_field_fmt[where sep = "'':''", OF two va(4) vb(4) l5]
  note l3 = lex_field_fmt[where sep = "''T''", OF two va(3) vb(3) l4]
  note l2 = lex_field_fmt[where sep = "''-''", OF two va(2) vb(2) l3]
  note l1 = lex_field_fmt[where sep = "''-''", OF four va(1) vb(1) l2]
  show "(isoformat ''+00:00'' a < isoformat ''+00:00'' b) = dt_less a b"
    unfolding isoformat_def dt_less_def dt_fields_def by (rule l1(1))
  show "(isoformat ''+00:00'' a = isoformat ''+00:00'' b) = (dt_fields a = dt_fields b)"
    unfolding isoformat_def dt_fields_def by (rule l1(2))
qed

lemma isoformat_nonempty: "isoformat off d \<noteq> []"
  by (simp add: isoformat_def fmt_d.simps[of 4 "year d"])

section \<open>Sorting and deduplication\<close>

lemma mset_insert_desc: "mset (insert_desc key x ys) = add_mset x (mset ys)"
  by (induction ys) auto

lemma mset_sort_desc: "mset (sort_desc key xs) = mset xs"
  by (induction xs) (auto simp: mset_insert_desc)

lemma set_sort_desc: "set (sort_desc key xs) = set xs"
  by (metis mset_sort_desc set_mset_mset)

lemma set_insert_desc: "set (insert_desc key x ys) = insert x (set ys)"
  by (metis mset_insert_desc set_mset_mset set_mset_add_mset_insert)

lemma descending_insert_desc:
  "sorted_wrt (\<lambda>a b. key b \<le> key a) ys \<Longrightarrow> sorted_wrt (\<lambda>a b. key b \<le> key a) (insert_desc key x ys)"
  by (induction ys) (auto simp: set_insert_desc)

lemma descending_sort_desc: "sorted_wrt (\<lambda>a b. key b \<le> key a) (sort_desc key xs)"
  by (induction xs) (auto simp: descending_insert_desc)

lemma filter_insert_desc_other:
  "\<not> P x \<Longrightarrow> filter P (insert_desc key x ys) = filter P ys"
  by (induction ys) auto

lemma distinct_map_sort_desc:
  "distinct (map f (sort_desc key xs)) = distinct (map f xs)"
proof -
  have "mset (map f (sort_desc key xs)) = mset (map f xs)"
    by (simp add: mset_sort_desc)
  then show ?thesis by (metis distinct_count_atmost_1 set_mset_mset)
qed

lemma dedup_loop_distinct:
  "distinct (map url unique) \<Longrightarrow> url ` set unique \<subseteq> seen \<Longrightarrow>
   distinct (map url (dedup_loop xs seen unique))"
  by (induction xs seen unique rule: dedup_loop.induct) auto

lemma dedup_loop_filter:
  "filter (\<lambda>a. url a = u) (dedup_loop xs seen unique) =
     filter (\<lambda>a. url a = u) unique @
       (if u \<in> seen then [] else take 1 (filter (\<lambda>a. url a = u) xs))"
  by (induction xs seen unique rule: dedup_loop.induct) auto

lemma url_mem_filter: "(u \<in> url ` set ys) = (filter (\<lambda>a. url a = u) ys \<noteq> [])"
  by (auto simp: filter_empty_conv)

lemma dedup_loop_urls: "url ` set (dedup_loop xs {} []) = url ` set xs"
proof (rule set_eqI)
  fix u
  show "(u \<in> url ` set (dedup_loop xs {} [])) = (u \<in> url ` set xs)"
    unfolding url_mem_filter dedup_loop_filter
    by (cases "filter (\<lambda>a. url a = u) xs") auto
qed

lemma find_filter_hd: "List.find P xs = (case filter P xs of [] \<Rightarrow> None | x # _ \<Rightarrow> Some x)"
  by (induction xs) auto

lemma dedup_loop_first:
  assumes "a \<in> set (dedup_loop xs {} [])"
  shows "List.find (\<lambda>b. url b = url a) xs = Some a"
proof -
  from assms have "a \<in> set (filter (\<lambda>b. url b = url a) (dedup_loop xs {} []))" by simp
  then have "a \<in> set (take 1 (filter (\<lambda>b. url b = url a) xs))"
    by (simp add: dedup_loop_filter)
  then show ?thesis
    by (cases "filter (\<lambda>b. url b = url a) xs") (auto simp: find_filter_hd)
qed

section \<open>The curation pipeline\<close>

lemma take_nat_step: "c < m \<Longrightarrow> take (nat (m - c)) (x # xs) = x # take (nat (m - (c + 1))) xs"
  for c m :: int
proof -
  assume "c < m"
  then have "nat (m - c) = Suc (nat (m - (c + 1)))" by simp
  then show ?thesis by simp
qed

lemma scan_entries_closed:
  "scan_entries lib cutoff m name es c acc =
     acc @ map (\<lambda>e. make_article name e (parse_pub_date lib e))
       (take (nat (m - c))
          (filter (\<lambda>e. spec_fresh cutoff (parse_pub_date lib e) \<and>
                       is_ai_related (entry_title e) (summary_clean e)) es))"
proof (induction es arbitrary: c acc)
  case Nil
  show ?case by simp
next
  case (Cons e es)
  show ?case
  proof (cases "m \<le> c")
    case True
    then show ?thesis by simp
  next
    case False
    then have lt: "c < m" by simp
    show ?thesis
      using False Cons.IH[of c acc] Cons.IH[of "c + 1" "acc @ [make_article name e (parse_pub_date lib e)]"]
      by (auto simp: Let_def spec_fresh_def take_nat_step[OF lt] split: option.splits)
  qed
qed

lemma example_fetch: "fetch_articles example_parse example_lib example_now 5 = Inr example_ranked"
  by code_simp

lemma example_cutoff:
  "minus_hours example_now MAX_ARTICLE_AGE_HOURS = Some (example_now\<lparr>month := 2, day := 29\<rparr>)"
  by code_simp

lemma example_collected:
  "collected example_parse example_lib (example_now\<lparr>month := 2, day := 29\<rparr>) 5 =
    [\<lparr>source = ''VentureBeat'', title = ''AI one'', url = [], summary = [],
       published = ''date unknown'', pub_dt = []\<rparr>,
     \<lparr>source = ''VentureBeat'', title = ''AI two'', url = [], summary = [],
       published = ''2024-02-29 21:00 UTC'', pub_dt = ''2024-02-29T21:00:00+00:00''\<rparr>,
     \<lparr>source = ''Wired'', title = ''AI three'', url = ''u3'', summary = [],
       published = ''2024-02-29 21:00 UTC'', pub_dt = ''2024-02-29T21:00:00+00:00''\<rparr>,
     \<lparr>source = ''Wired'', title = ''AI four'', url = ''u3'', summary = [],
       published = ''date unknown'', pub_dt = []\<rparr>]"
  by code_simp

lemma scan_entries_append:
  "scan_entries lib cutoff m name es 0 acc = acc @ scan_entries lib cutoff m name es 0 []"
  by (simp add: scan_entries_closed)

lemma collect_feeds_closed:
  "collect_feeds parse lib cutoff m feeds acc =
     acc @ concat (map (\<lambda>(name, feed_url).
              case parse feed_url of None \<Rightarrow> []
              | Some es \<Rightarrow> scan_entries lib cutoff m name es 0 []) feeds)"
proof (induction feeds arbitrary: acc)
  case Nil
  show ?case by simp
next
  case (Cons f feeds)
  obtain name feed_url where f: "f = (name, feed_url)" by (cases f)
  show ?case
    by (simp add: f Cons.IH scan_entries_append[of _ _ _ _ _ acc] split: option.splits)
qed

lemma collected_origin:
  assumes "a \<in> set (collected parse lib cutoff m)"
  shows "\<exists>name feed_url es e. (name, feed_url) \<in> set RSS_FEEDS \<and> parse feed_url = Some es \<and>
           e \<in> set es \<and> a = make_article name e (parse_pub_date lib e) \<and>
           spec_fresh cutoff (parse_pub_date lib e) \<and>
           is_ai_related (entry_title e) (summary_clean e)"
proof -
  from assms obtain name feed_url where
    f: "(name, feed_url) \<in> set RSS_FEEDS" and
    a: "a \<in> set (case parse feed_url of None \<Rightarrow> []
                   | Some es \<Rightarrow> scan_entries lib cutoff m name es 0 [])"
    by (auto simp: collected_def collect_feeds_closed)
  from a obtain es where es: "parse feed_url = Some es"
    and a': "a \<in> set (scan_entries lib cutoff m name es 0 [])"
    by (cases "parse feed_url") auto
  from a' obtain e where "a = make_article name e (parse_pub_date lib e)"
    and "e \<in> set (take (nat m) (filter (\<lambda>e. spec_fresh cutoff (parse_pub_date lib e) \<and>
                       is_ai_related (entry_title e) (summary_clean e)) es))"
    by (auto simp: scan_entries_closed)
  moreover from this(2) have "e \<in> set (filter (\<lambda>e. spec_fresh cutoff (parse_pub_date lib e) \<and>
                       is_ai_related (entry_title e) (summary_clean e)) es)"
    by (rule in_set_takeD)
  ultimately show ?thesis using f es by auto
qed

text \<open>
  \<^verbatim>\<open>fetch_articles\<close> returns a list for every time of the run but the first day of year 1,
  where the cutoff does not exist.
\<close>

lemma minus_hours_day: "minus_hours d 24 = sub_one_day (d\<lparr>hour := hour d\<rparr>)"
  by (simp add: minus_hours_def Let_def split: option.splits)

lemma fetch_articles_returns:
  assumes "valid_datetime now_utc" "date_of now_utc \<noteq> (1, 1, 1)"
  shows "\<exists>ranked. fetch_articles parse lib now_utc max_per_feed = Inr ranked"
proof -
  from assms have "1 < day now_utc \<or> 1 < month now_utc \<or> 1 < year now_utc"
    by (auto simp: valid_datetime_def date_of_def)
  then have "\<exists>c. minus_hours now_utc MAX_ARTICLE_AGE_HOURS = Some c"
    by (auto simp: MAX_ARTICLE_AGE_HOURS_def minus_hours_day sub_one_day_def)
  then show ?thesis by (auto simp: fetch_articles_def Let_def)
qed

lemma fetch_articles_Inr:
  assumes "fetch_articles parse lib now_utc m = Inr ranked"
  shows "\<exists>cutoff. minus_hours now_utc MAX_ARTICLE_AGE_HOURS = Some cutoff \<and>
           ranked = sort_desc pub_dt (dedup_loop (collected parse lib cutoff m) {} [])"
  using assms by (auto simp: fetch_articles_def Let_def split: option.splits)

text \<open>
  Claim C1. The loop over the entries of one feed adds exactly the articles of the first
  \<open>max_per_feed\<close> entries that pass the freshness check and are AI related, where the
  freshness check \<open>spec_fresh\<close> lets an entry with a known instant pass unless that instant
  is strictly before the cutoff and lets every entry with an unknown instant pass. So an
  entry whose instant was parsed and is older than the cutoff is dropped, and an entry with
  an unknown instant is never dropped by this check. Moreover every article of the ranked
  list that \<^verbatim>\<open>fetch_articles\<close> returns was built from an entry of a configured feed that
  passes the check against the cutoff of the run, the time of the run minus 24 hours.
\<close>

theorem fetch_articles_freshness:
  "scan_entries lib cutoff max_per_feed feed_name entries 0 articles =
     articles @ map (\<lambda>e. make_article feed_name e (parse_pub_date lib e))
       (take (nat max_per_feed)
          (filter (\<lambda>e. spec_fresh cutoff (parse_pub_date lib e) \<and>
                       is_ai_related (entry_title e) (summary_clean e)) entries))
   \<and> (\<forall>ranked a. fetch_articles parse lib now_utc max_per_feed = Inr ranked \<and> a \<in> set ranked \<longrightarrow>
         (\<exists>run_cutoff name feed_url es e.
            minus_hours now_utc MAX_ARTICLE_AGE_HOURS = Some run_cutoff \<and>
            (name, feed_url) \<in> set RSS_FEEDS \<and> parse feed_url = Some es \<and> e \<in> set es \<and>
            a = make_article name e (parse_pub_date lib e) \<and>
            spec_fresh run_cutoff (parse_pub_date lib e)))"
proof (intro conjI allI impI)
  show "scan_entries lib cutoff max_per_feed feed_name entries 0 articles =
     articles @ map (\<lambda>e. make_article feed_name e (parse_pub_date lib e))
       (take (nat max_per_feed)
          (filter (\<lambda>e. spec_fresh cutoff (parse_pub_date lib e) \<and>
                       is_ai_related (entry_title e) (summary_clean e)) entries))"
    by (simp add: scan_entries_closed)
next
  fix ranked a
  assume h: "fetch_articles parse lib now_utc max_per_feed = Inr ranked \<and> a \<in> set ranked"
  from fetch_articles_Inr[OF h[THEN conjunct1]] obtain run_cutoff where
    c: "minus_hours now_utc MAX_ARTICLE_AGE_HOURS = Some run_cutoff" and
    r: "ranked = sort_desc pub_dt (dedup_loop (collected parse lib run_cutoff max_per_feed) {} [])"
    by blast
  from h r have "url a \<in> url ` set (dedup_loop (collected parse lib run_cutoff max_per_feed) {} [])"
    by (simp add: set_sort_desc)
  from h r have "a \<in> set (dedup_loop (collected parse lib run_cutoff max_per_feed) {} [])"
    by (simp add: set_sort_desc)
  then have "List.find (\<lambda>b. url b = url a) (collected parse lib run_cutoff max_per_feed) = Some a"
    by (rule dedup_loop_first)
  then have "a \<in> set (collected parse lib run_cutoff max_per_feed)"
    by (auto simp: find_Some_iff)
  from collected_origin[OF this] c
  show "\<exists>run_cutoff name feed_url es e.
            minus_hours now_utc MAX_ARTICLE_AGE_HOURS = Some run_cutoff \<and>
            (name, feed_url) \<in> set RSS_FEEDS \<and> parse feed_url = Some es \<and> e \<in> set es \<and>
            a = make_article name e (parse_pub_date lib e) \<and>
            spec_fresh run_cutoff (parse_pub_date lib e)"
    by blast
qed

text \<open>
  Claim C2. Whatever the feeds deliver, the ranked list returned by \<^verbatim>\<open>fetch_articles\<close>
  holds no two articles with the same url; it holds every url of the collected articles,
  and the article it holds for a url is the first collected article with that url, in the
  order in which the sources were processed.
\<close>

theorem fetch_articles_no_duplicate_url:
  assumes "fetch_articles parse lib now_utc max_per_feed = Inr ranked"
  shows "distinct (map url ranked) \<and>
         (\<exists>cutoff. minus_hours now_utc MAX_ARTICLE_AGE_HOURS = Some cutoff \<and>
            url ` set ranked = url ` set (collected parse lib cutoff max_per_feed) \<and>
            (\<forall>a\<in>set ranked.
               List.find (\<lambda>b. url b = url a) (collected parse lib cutoff max_per_feed) = Some a))"
proof -
  from fetch_articles_Inr[OF assms] obtain cutoff where
    c: "minus_hours now_utc MAX_ARTICLE_AGE_HOURS = Some cutoff" and
    r: "ranked = sort_desc pub_dt (dedup_loop (collected parse lib cutoff max_per_feed) {} [])"
    by blast
  have "distinct (map url ranked)"
    unfolding r distinct_map_sort_desc by (rule dedup_loop_distinct) simp_all
  moreover have "url ` set ranked = url ` set (collected parse lib cutoff max_per_feed)"
    by (simp add: r set_sort_desc dedup_loop_urls)
  moreover have "\<forall>a\<in>set ranked.
      List.find (\<lambda>b. url b = url a) (collected parse lib cutoff max_per_feed) = Some a"
    by (simp add: r set_sort_desc dedup_loop_first)
  ultimately show ?thesis using c by blast
qed

lemma filter_sort_desc_single:
  assumes "length (filter P xs) \<le> 1"
  shows "filter P (sort_desc key xs) = filter P xs"
proof -
  have m: "mset (filter P (sort_desc key xs)) = mset (filter P xs)"
    by (simp add: mset_sort_desc)
  then have l: "length (filter P (sort_desc key xs)) = length (filter P xs)"
    by (metis size_mset)
  show ?thesis
  proof (cases "filter P xs")
    case Nil
    with l show ?thesis by simp
  next
    case (Cons y ys)
    with assms have ys: "ys = []" by simp
    from l Cons ys obtain z where z: "filter P (sort_desc key xs) = [z]"
      by (cases "filter P (sort_desc key xs)") auto
    with m Cons ys show ?thesis by simp
  qed
qed

text \<open>
  Claim C10. An entry without a link gets the empty string as the url of its article, and
  of all collected articles with the empty url the ranked list keeps exactly the first one
  in source-processing order; the others are discarded as duplicates.
\<close>

theorem fetch_articles_missing_link:
  assumes "fetch_articles parse lib now_utc max_per_feed = Inr ranked"
    and "minus_hours now_utc MAX_ARTICLE_AGE_HOURS = Some cutoff"
  shows "(\<forall>feed_name entry pub. e_link entry = None \<longrightarrow> url (make_article feed_name entry pub) = [])
       \<and> filter (\<lambda>a. url a = []) ranked =
           take 1 (filter (\<lambda>a. url a = []) (collected parse lib cutoff max_per_feed))"
proof -
  from fetch_articles_Inr[OF assms(1)] assms(2) have
    r: "ranked = sort_desc pub_dt (dedup_loop (collected parse lib cutoff max_per_feed) {} [])"
    by auto
  have d: "filter (\<lambda>a. url a = []) (dedup_loop (collected parse lib cutoff max_per_feed) {} [])
        = take 1 (filter (\<lambda>a. url a = []) (collected parse lib cutoff max_per_feed))"
    by (simp add: dedup_loop_filter)
  have "filter (\<lambda>a. url a = []) ranked
        = filter (\<lambda>a. url a = []) (dedup_loop (collected parse lib cutoff max_per_feed) {} [])"
    unfolding r by (rule filter_sort_desc_single) (simp add: d)
  with d show ?thesis by (simp add: make_article_def)
qed

lemma try_struct_valid: "lib_valid lib \<Longrightarrow> valid_instant (try_struct lib t)"
  by (cases t) (auto simp: lib_valid_def try_struct_def valid_instant_def)

lemma try_text_valid: "lib_valid lib \<Longrightarrow> valid_instant (try_text lib s)"
proof (cases s)
  case None
  then show ?thesis by (simp add: try_text_def valid_instant_def)
next
  case (Some v)
  assume l: "lib_valid lib"
  then have "valid_instant (from_rfc2822 lib v)" "valid_instant (from_iso lib (normalize_offset v))"
    by (simp_all add: lib_valid_def)
  then show ?thesis
    by (cases "from_rfc2822 lib v") (simp_all add: try_text_def Some valid_instant_def)
qed

lemma parse_pub_date_valid:
  assumes "lib_valid lib"
  shows "valid_instant (parse_pub_date lib e)"
  using try_struct_valid[OF assms, of "e_published_parsed e"]
    try_struct_valid[OF assms, of "e_updated_parsed e"]
    try_text_valid[OF assms, of "e_published e"] try_text_valid[OF assms, of "e_updated e"]
  by (auto simp: parse_pub_date_def split: option.splits)

lemma pub_dt_text_order:
  assumes "pub_dt_text pb \<le> pub_dt_text pa" "valid_instant pa" "valid_instant pb"
  shows "spec_not_older pa pb"
proof (cases pb)
  case None
  then show ?thesis by (simp add: spec_not_older_def)
next
  case (Some db)
  show ?thesis
  proof (cases pa)
    case None
    with assms(1) Some show ?thesis by (simp add: pub_dt_text_def isoformat_nonempty)
  next
    case (Some da)
    with assms \<open>pb = Some db\<close> have "\<not> isoformat ''+00:00'' da < isoformat ''+00:00'' db"
      by (simp add: pub_dt_text_def not_less)
    with assms Some \<open>pb = Some db\<close> show ?thesis
      by (simp add: spec_not_older_def valid_instant_def isoformat_cmp(1))
  qed
qed

lemma example_lib_valid: "lib_valid example_lib"
  by (simp add: lib_valid_def example_lib_def valid_instant_def valid_datetime_def
        days_in_month_def is_leap_def)

text \<open>
  Claim C3. Every article of the ranked list was built from an entry and carries the text
  of that entry's publication instant, and the list is ordered by these instants: whenever
  an article stands in front of another one, with instants \<open>pa\<close> and \<open>pb\<close>, either \<open>pb\<close> is
  unknown or both are known and \<open>pa\<close> is not older than \<open>pb\<close>. So the known instants descend
  and every article with an unknown instant comes after every article with a known one.
\<close>

theorem fetch_articles_ranked_by_instant:
  assumes "fetch_articles parse lib now_utc max_per_feed = Inr ranked" and "lib_valid lib"
  shows "(\<forall>a\<in>set ranked. \<exists>name e. a = make_article name e (parse_pub_date lib e) \<and>
                                  valid_instant (parse_pub_date lib e))
       \<and> sorted_wrt (\<lambda>a b. \<forall>pa pb. valid_instant pa \<and> valid_instant pb \<and>
                                 pub_dt a = pub_dt_text pa \<and> pub_dt b = pub_dt_text pb
                                 \<longrightarrow> spec_not_older pa pb) ranked"
proof
  from fetch_articles_Inr[OF assms(1)] obtain cutoff where
    r: "ranked = sort_desc pub_dt (dedup_loop (collected parse lib cutoff max_per_feed) {} [])"
    by blast
  show "\<forall>a\<in>set ranked. \<exists>name e. a = make_article name e (parse_pub_date lib e) \<and>
                                  valid_instant (parse_pub_date lib e)"
  proof
    fix a assume "a \<in> set ranked"
    then have "a \<in> set (dedup_loop (collected parse lib cutoff max_per_feed) {} [])"
      by (simp add: r set_sort_desc)
    then have "List.find (\<lambda>b. url b = url a) (collected parse lib cutoff max_per_feed) = Some a"
      by (rule dedup_loop_first)
    then have "a \<in> set (collected parse lib cutoff max_per_feed)"
      by (auto simp: find_Some_iff)
    from collected_origin[OF this] parse_pub_date_valid[OF assms(2)]
    show "\<exists>name e. a = make_article name e (parse_pub_date lib e) \<and>
                   valid_instant (parse_pub_date lib e)"
      by blast
  qed
  have "sorted_wrt (\<lambda>a b. pub_dt b \<le> pub_dt a) ranked"
    unfolding r by (rule descending_sort_desc)
  then show "sorted_wrt (\<lambda>a b. \<forall>pa pb. valid_instant pa \<and> valid_instant pb \<and>
                                 pub_dt a = pub_dt_text pa \<and> pub_dt b = pub_dt_text pb
                                 \<longrightarrow> spec_not_older pa pb) ranked"
    by (rule sorted_wrt_mono_rel[rotated]) (auto intro: pub_dt_text_order)
qed

theorem fetch_articles_ranked_by_instant_witness:
  "fetch_articles example_parse example_lib example_now 5 = Inr example_ranked
   \<and> lib_valid example_lib
   \<and> sorted_wrt (\<lambda>a b. \<forall>pa pb. valid_instant pa \<and> valid_instant pb \<and>
                                 pub_dt a = pub_dt_text pa \<and> pub_dt b = pub_dt_text pb
                                 \<longrightarrow> spec_not_older pa pb) example_ranked
   \<and> map pub_dt example_ranked = [''2024-02-29T21:00:00+00:00'', []]"
  using fetch_articles_ranked_by_instant[OF example_fetch example_lib_valid]
    example_fetch example_lib_valid
  by (simp add: example_ranked_def)

theorem fetch_articles_freshness_witness:
  "fetch_articles example_parse example_lib example_now 5 = Inr example_ranked
   \<and> hd example_ranked \<in> set example_ranked
   \<and> (\<exists>run_cutoff name feed_url es e.
            minus_hours example_now MAX_ARTICLE_AGE_HOURS = Some run_cutoff \<and>
            (name, feed_url) \<in> set RSS_FEEDS \<and> example_parse feed_url = Some es \<and> e \<in> set es \<and>
            hd example_ranked = make_article name e (parse_pub_date example_lib e) \<and>
            spec_fresh run_cutoff (parse_pub_date example_lib e))"
proof -
  have m: "hd example_ranked \<in> set example_ranked" by (simp add: example_ranked_def)
  from fetch_articles_freshness[THEN conjunct2, rule_format, OF conjI[OF example_fetch m]]
  show ?thesis using example_fetch m by blast
qed

theorem fetch_articles_no_duplicate_url_witness:
  "fetch_articles example_parse example_lib example_now 5 = Inr example_ranked
   \<and> distinct (map url example_ranked) \<and> map url example_ranked = [''u3'', []]"
  using fetch_articles_no_duplicate_url[OF example_fetch] example_fetch
  by (simp add: example_ranked_def)

theorem fetch_articles_missing_link_witness:
  "fetch_articles example_parse example_lib example_now 5 = Inr example_ranked
   \<and> minus_hours example_now MAX_ARTICLE_AGE_HOURS = Some (example_now\<lparr>month := 2, day := 29\<rparr>)
   \<and> filter (\<lambda>a. url a = []) example_ranked =
       take 1 (filter (\<lambda>a. url a = [])
                 (collected example_parse example_lib (example_now\<lparr>month := 2, day := 29\<rparr>) 5))
   \<and> map title (filter (\<lambda>a. url a = [])
                 (collected example_parse example_lib (example_now\<lparr>month := 2, day := 29\<rparr>) 5))
       = [''AI one'', ''AI two'']
   \<and> map title (filter (\<lambda>a. url a = []) example_ranked) = [''AI one'']"
  using fetch_articles_missing_link[OF example_fetch example_cutoff] example_fetch example_cutoff
  by (simp add: example_collected example_ranked_def)

section \<open>The summarization orchestrator\<close>

lemma try_models_skip:
  assumes "\<forall>c\<in>set pre. \<exists>e. attempt loads (invoke c) = Inl e \<and> is_rate_limit e"
  shows "try_models invoke loads (pre @ rest) =
           (pre @ fst (try_models invoke loads rest), snd (try_models invoke loads rest))"
  using assms
proof (induction pre)
  case Nil
  show ?case by simp
next
  case (Cons c pre)
  then obtain e where e: "attempt loads (invoke c) = Inl e" "is_rate_limit e" by auto
  from Cons have "try_models invoke loads (pre @ rest) =
           (pre @ fst (try_models invoke loads rest), snd (try_models invoke loads rest))"
    by simp
  then show ?case by (simp add: e)
qed

lemma try_models_prefix: "\<exists>rest. ms = fst (try_models invoke loads ms) @ rest"
proof (induction ms)
  case Nil
  show ?case by simp
next
  case (Cons m ms)
  then obtain rest where r: "ms = fst (try_models invoke loads ms) @ rest" by blast
  show ?case
  proof (cases "attempt loads (invoke m)")
    case (Inr res)
    then show ?thesis by simp
  next
    case (Inl e)
    show ?thesis
    proof (cases "is_rate_limit e")
      case True
      have "m # ms = fst (try_models invoke loads (m # ms)) @ rest"
        using r by (cases "try_models invoke loads ms") (simp add: Inl True)
      then show ?thesis ..
    next
      case False
      then show ?thesis by (simp add: Inl)
    qed
  qed
qed

lemma try_models_result:
  "try_models invoke loads ms = (invoked, res) \<Longrightarrow>
     (case res of
        Some r \<Rightarrow> invoked \<noteq> [] \<and> attempt loads (invoke (last invoked)) = Inr r
      | None \<Rightarrow> True) \<and>
     (\<forall>c\<in>set (butlast invoked). \<exists>e. attempt loads (invoke c) = Inl e \<and> is_rate_limit e)"
proof (induction ms arbitrary: invoked res)
  case Nil
  then show ?case by auto
next
  case (Cons m ms)
  show ?case
  proof (cases "attempt loads (invoke m)")
    case (Inr r)
    with Cons.prems show ?thesis by auto
  next
    case (Inl e)
    show ?thesis
    proof (cases "is_rate_limit e")
      case False
      with Cons.prems Inl show ?thesis by auto
    next
      case True
      obtain tr r' where t: "try_models invoke loads ms = (tr, r')" by (cases "try_models invoke loads ms")
      from Cons.prems Inl True t have iv: "invoked = m # tr" "res = r'" by auto
      note ih = Cons.IH[OF t]
      show ?thesis
      proof (cases tr)
        case Nil
        with ih iv Inl True show ?thesis by (cases r') auto
      next
        case (Cons a as)
        with ih iv Inl True show ?thesis by (cases r') auto
      qed
    qed
  qed
qed

lemma try_models_none:
  "try_models invoke loads ms = (invoked, None) \<Longrightarrow>
     \<forall>c\<in>set invoked. \<exists>e. attempt loads (invoke c) = Inl e"
proof (induction ms arbitrary: invoked)
  case Nil
  then show ?case by simp
next
  case (Cons m ms)
  show ?case
  proof (cases "attempt loads (invoke m)")
    case (Inr r)
    with Cons.prems show ?thesis by auto
  next
    case (Inl e)
    show ?thesis
    proof (cases "is_rate_limit e")
      case False
      with Cons.prems Inl show ?thesis by auto
    next
      case True
      obtain tr r' where t: "try_models invoke loads ms = (tr, r')" by (cases "try_models invoke loads ms")
      from Cons.prems Inl True t have iv: "invoked = m # tr" "r' = None" by auto
      with Cons.IH[of tr] t Inl show ?thesis by auto
    qed
  qed
qed

lemma try_models_some:
  "try_models invoke loads ms = (invoked, Some r) \<Longrightarrow>
     \<exists>c\<in>set ms. attempt loads (invoke c) = Inr r"
proof (induction ms arbitrary: invoked)
  case Nil
  then show ?case by simp
next
  case (Cons m ms)
  show ?case
  proof (cases "attempt loads (invoke m)")
    case (Inr r')
    with Cons.prems show ?thesis by auto
  next
    case (Inl e)
    show ?thesis
    proof (cases "is_rate_limit e")
      case False
      with Cons.prems Inl show ?thesis by auto
    next
      case True
      obtain tr r' where t: "try_models invoke loads ms = (tr, r')" by (cases "try_models invoke loads ms")
      from Cons.prems Inl True t have iv: "invoked = m # tr" "r' = Some r" by auto
      with Cons.IH[of tr] t show ?thesis by auto
    qed
  qed
qed

text \<open>
  Claim C4. With a backend configured, the candidates that \<^verbatim>\<open>summarize_with_gemini\<close> invokes
  form an initial piece of \<open>models_to_try\<close>: they are tried in the fixed order, each at most
  once. When every candidate in front of a candidate \<open>m\<close> fails with a text that the
  \<^verbatim>\<open>except\<close> branch takes for a rate limit (it holds \<^verbatim>\<open>429\<close> or, in any case, \<^verbatim>\<open>quota\<close>), then
  \<open>m\<close> is the last candidate invoked if it succeeds, and the result is what it parsed, and
  also if it fails with any other text, and the result is the fallback; no candidate behind
  \<open>m\<close> is invoked. When all candidates fail with a rate limit, all are invoked and the
  result is the fallback.
\<close>

theorem summarize_candidates_in_order:
  assumes "api_key \<noteq> []"
  shows "(\<exists>rest. models_to_try = fst (summarize_with_gemini api_key invoke loads articles) @ rest)
    \<and> (\<forall>pre m post.
          models_to_try = pre @ m # post \<and>
          (\<forall>c\<in>set pre. \<exists>e. attempt loads (invoke c) = Inl e \<and> is_rate_limit e) \<longrightarrow>
            (\<forall>r. attempt loads (invoke m) = Inr r \<longrightarrow>
               summarize_with_gemini api_key invoke loads articles = (pre @ [m], r)) \<and>
            (\<forall>e. attempt loads (invoke m) = Inl e \<and> \<not> is_rate_limit e \<longrightarrow>
               summarize_with_gemini api_key invoke loads articles
                 = (pre @ [m], dummy_summary articles)))
    \<and> ((\<forall>c\<in>set models_to_try. \<exists>e. attempt loads (invoke c) = Inl e \<and> is_rate_limit e) \<longrightarrow>
          summarize_with_gemini api_key invoke loads articles
            = (models_to_try, dummy_summary articles))"
proof (intro conjI allI impI)
  obtain tr res where t: "try_models invoke loads models_to_try = (tr, res)"
    by (cases "try_models invoke loads models_to_try")
  have "fst (summarize_with_gemini api_key invoke loads articles) = tr"
    using assms t by (cases res) (simp_all add: summarize_with_gemini_def)
  with try_models_prefix[of models_to_try invoke loads] t
  show "\<exists>rest. models_to_try = fst (summarize_with_gemini api_key invoke loads articles) @ rest"
    by simp
next
  fix pre m post r
  assume h: "models_to_try = pre @ m # post \<and>
          (\<forall>c\<in>set pre. \<exists>e. attempt loads (invoke c) = Inl e \<and> is_rate_limit e)"
    and ok: "attempt loads (invoke m) = Inr r"
  from h have eq: "models_to_try = pre @ m # post"
    and q: "\<forall>c\<in>set pre. \<exists>e. attempt loads (invoke c) = Inl e \<and> is_rate_limit e"
    by simp_all
  have "try_models invoke loads (pre @ m # post) =
      (pre @ fst (try_models invoke loads (m # post)), snd (try_models invoke loads (m # post)))"
    by (rule try_models_skip[OF q])
  with ok have "try_models invoke loads (pre @ m # post) = (pre @ [m], Some r)" by simp
  then have "try_models invoke loads models_to_try = (pre @ [m], Some r)" by (simp add: eq)
  with assms show "summarize_with_gemini api_key invoke loads articles = (pre @ [m], r)"
    by (simp add: summarize_with_gemini_def)
next
  fix pre m post e
  assume h: "models_to_try = pre @ m # post \<and>
          (\<forall>c\<in>set pre. \<exists>e. attempt loads (invoke c) = Inl e \<and> is_rate_limit e)"
    and bad: "attempt loads (invoke m) = Inl e \<and> \<not> is_rate_limit e"
  from h have eq: "models_to_try = pre @ m # post"
    and q: "\<forall>c\<in>set pre. \<exists>e. attempt loads (invoke c) = Inl e \<and> is_rate_limit e"
    by simp_all
  have "try_models invoke loads (pre @ m # post) =
      (pre @ fst (try_models invoke loads (m # post)), snd (try_models invoke loads (m # post)))"
    by (rule try_models_skip[OF q])
  with bad have "try_models invoke loads (pre @ m # post) = (pre @ [m], None)" by simp
  then have "try_models invoke loads models_to_try = (pre @ [m], None)" by (simp add: eq)
  with assms show "summarize_with_gemini api_key invoke loads articles
                     = (pre @ [m], dummy_summary articles)"
    by (simp add: summarize_with_gemini_def)
next
  assume "\<forall>c\<in>set models_to_try. \<exists>e. attempt loads (invoke c) = Inl e \<and> is_rate_limit e"
  from try_models_skip[OF this, of "[]"]
  have "try_models invoke loads models_to_try = (models_to_try, None)" by simp
  with assms show "summarize_with_gemini api_key invoke loads articles
                     = (models_to_try, dummy_summary articles)"
    by (simp add: summarize_with_gemini_def)
qed

lemma example_attempts:
  "attempt example_loads (example_invoke ''gemini-2.0-flash'') = Inl ''429 RESOURCE_EXHAUSTED''"
  "is_rate_limit ''429 RESOURCE_EXHAUSTED''"
  "attempt example_loads (example_invoke ''gemini-2.0-flash-lite'') = Inr (JObj [])"
  by code_simp+

theorem summarize_candidates_in_order_witness:
  "''key'' \<noteq> [] \<and>
   models_to_try = [''gemini-2.0-flash''] @ ''gemini-2.0-flash-lite'' #
                     [''gemini-2.5-flash'', ''gemini-flash-lite-latest''] \<and>
   attempt example_loads (example_invoke ''gemini-2.0-flash'') = Inl ''429 RESOURCE_EXHAUSTED'' \<and>
   is_rate_limit ''429 RESOURCE_EXHAUSTED'' \<and>
   attempt example_loads (example_invoke ''gemini-2.0-flash-lite'') = Inr (JObj []) \<and>
   summarize_with_gemini ''key'' example_invoke example_loads example_ranked
     = ([''gemini-2.0-flash'', ''gemini-2.0-flash-lite''], JObj [])"
proof -
  have k: "''key'' \<noteq> []" by simp
  have m: "models_to_try = [''gemini-2.0-flash''] @ ''gemini-2.0-flash-lite'' #
                     [''gemini-2.5-flash'', ''gemini-flash-lite-latest'']"
    by (simp add: models_to_try_def)
  have q: "\<forall>c\<in>set [''gemini-2.0-flash''].
      \<exists>e. attempt example_loads (example_invoke c) = Inl e \<and> is_rate_limit e"
    by (simp add: example_attempts)
  from summarize_candidates_in_order[OF k, of example_invoke example_loads example_ranked,
      THEN conjunct2, THEN conjunct1, rule_format, OF conjI[OF m q], THEN conjunct1, rule_format,
      OF example_attempts(3)]
  show ?thesis using k m example_attempts by simp
qed

text \<open>
  Claim C5. Without an API key no candidate is invoked and the result is the fallback.
  Whenever no invoked candidate succeeded (the loop was left by \<^verbatim>\<open>break\<close> or ran out of
  candidates) the result is the fallback. In every case the function returns a value: the
  fallback, or what a candidate parsed; every exception of the loop body is a value that
  the loop consumes. The fallback holds the fixed texts and, under \<^verbatim>\<open>top_articles\<close>, one item
  for each of the first \<open>min 10 (length articles)\<close> articles, in order, with ranks 1, 2, ...
  and as point the first 50 characters of the summary followed by three dots.
\<close>

theorem summarize_fallback:
  "(api_key = [] \<longrightarrow>
      summarize_with_gemini api_key invoke loads articles = ([], dummy_summary articles))
   \<and> ((\<forall>c\<in>set (fst (summarize_with_gemini api_key invoke loads articles)).
          \<exists>e. attempt loads (invoke c) = Inl e) \<longrightarrow>
        snd (summarize_with_gemini api_key invoke loads articles) = dummy_summary articles)
   \<and> (snd (summarize_with_gemini api_key invoke loads articles) = dummy_summary articles \<or>
       (\<exists>c\<in>set models_to_try.
          attempt loads (invoke c) = Inr (snd (summarize_with_gemini api_key invoke loads articles))))
   \<and> (\<exists>tops.
        dummy_summary articles =
          JObj [(''news_summary'', JStr (codepoints DUMMY_NEWS_SUMMARY)),
                (''opinion_summary'', JStr (codepoints DUMMY_OPINION_SUMMARY)),
                (''sentiment'', JObj [(''positive'', JStr (codepoints DUMMY_SENTIMENT)),
                                      (''negative'', JStr (codepoints DUMMY_SENTIMENT)),
                                      (''neutral'', JStr (codepoints DUMMY_SENTIMENT))]),
                (''top_articles'', JArr tops),
                (''joho_picks'', JArr [])] \<and>
        length tops = min 10 (length articles) \<and>
        (\<forall>i<length tops.
           tops ! i = JObj [(''rank'', JInt (int i + 1)),
                            (''title'', JStr (codepoints (title (articles ! i)))),
                            (''source'', JStr (codepoints (source (articles ! i)))),
                            (''url'', JStr (codepoints (url (articles ! i)))),
                            (''point'', JStr (codepoints (take 50 (summary (articles ! i)) @ ''...'')))]))"
proof (intro conjI impI)
  assume "api_key = []"
  then show "summarize_with_gemini api_key invoke loads articles = ([], dummy_summary articles)"
    by (simp add: summarize_with_gemini_def)
next
  assume f: "\<forall>c\<in>set (fst (summarize_with_gemini api_key invoke loads articles)).
          \<exists>e. attempt loads (invoke c) = Inl e"
  show "snd (summarize_with_gemini api_key invoke loads articles) = dummy_summary articles"
  proof (cases "api_key = []")
    case True
    then show ?thesis by (simp add: summarize_with_gemini_def)
  next
    case False
    obtain tr res where t: "try_models invoke loads models_to_try = (tr, res)"
      by (cases "try_models invoke loads models_to_try")
    show ?thesis
    proof (cases res)
      case None
      with False t show ?thesis by (simp add: summarize_with_gemini_def)
    next
      case (Some r)
      with False t have s: "summarize_with_gemini api_key invoke loads articles = (tr, r)"
        by (simp add: summarize_with_gemini_def)
      from try_models_result[OF t] Some have l: "tr \<noteq> []" "attempt loads (invoke (last tr)) = Inr r"
        by simp_all
      from l(1) have "last tr \<in> set tr" by simp
      with f s have "\<exists>e. attempt loads (invoke (last tr)) = Inl e" by simp
      with l(2) show ?thesis by simp
    qed
  qed
next
  show "snd (summarize_with_gemini api_key invoke loads articles) = dummy_summary articles \<or>
       (\<exists>c\<in>set models_to_try.
          attempt loads (invoke c) = Inr (snd (summarize_with_gemini api_key invoke loads articles)))"
  proof (cases "api_key = []")
    case True
    then show ?thesis by (simp add: summarize_with_gemini_def)
  next
    case False
    obtain tr res where t: "try_models invoke loads models_to_try = (tr, res)"
      by (cases "try_models invoke loads models_to_try")
    show ?thesis
    proof (cases res)
      case None
      with False t show ?thesis by (simp add: summarize_with_gemini_def)
    next
      case (Some r)
      with False t have s: "summarize_with_gemini api_key invoke loads articles = (tr, r)"
        by (simp add: summarize_with_gemini_def)
      from try_models_some[OF t[unfolded Some]] s show ?thesis by simp
    qed
  qed
next
  let ?tops = "map top_article (List.enumerate 1 (take 10 articles))"
  have "dummy_summary articles =
          JObj [(''news_summary'', JStr (codepoints DUMMY_NEWS_SUMMARY)),
                (''opinion_summary'', JStr (codepoints DUMMY_OPINION_SUMMARY)),
                (''sentiment'', JObj [(''positive'', JStr (codepoints DUMMY_SENTIMENT)),
                                      (''negative'', JStr (codepoints DUMMY_SENTIMENT)),
                                      (''neutral'', JStr (codepoints DUMMY_SENTIMENT))]),
                (''top_articles'', JArr ?tops),
                (''joho_picks'', JArr [])]"
    by (simp add: dummy_summary_def Let_def)
  moreover have "length ?tops = min 10 (length articles)" by (simp add: min.commute)
  moreover have "\<forall>i<length ?tops.
           ?tops ! i = JObj [(''rank'', JInt (int i + 1)),
                            (''title'', JStr (codepoints (title (articles ! i)))),
                            (''source'', JStr (codepoints (source (articles ! i)))),
                            (''url'', JStr (codepoints (url (articles ! i)))),
                            (''point'', JStr (codepoints (take 50 (summary (articles ! i)) @ ''...'')))]"
    by (simp add: nth_enumerate_eq top_article_def)
  ultimately show "\<exists>tops.
        dummy_summary articles =
          JObj [(''news_summary'', JStr (codepoints DUMMY_NEWS_SUMMARY)),
                (''opinion_summary'', JStr (codepoints DUMMY_OPINION_SUMMARY)),
                (''sentiment'', JObj [(''positive'', JStr (codepoints DUMMY_SENTIMENT)),
                                      (''negative'', JStr (codepoints DUMMY_SENTIMENT)),
                                      (''neutral'', JStr (codepoints DUMMY_SENTIMENT))]),
                (''top_articles'', JArr tops),
                (''joho_picks'', JArr [])] \<and>
        length tops = min 10 (length articles) \<and>
        (\<forall>i<length tops.
           tops ! i = JObj [(''rank'', JInt (int i + 1)),
                            (''title'', JStr (codepoints (title (articles ! i)))),
                            (''source'', JStr (codepoints (source (articles ! i)))),
                            (''url'', JStr (codepoints (url (articles ! i)))),
                            (''point'', JStr (codepoints (take 50 (summary (articles ! i)) @ ''...'')))])"
    by blast
qed

theorem summarize_fallback_witness:
  "([]::string) = [] \<and>
   summarize_with_gemini [] example_invoke example_loads example_ranked
     = ([], dummy_summary example_ranked) \<and>
   dummy_summary example_ranked =
     JObj [(''news_summary'', JStr (codepoints DUMMY_NEWS_SUMMARY)),
           (''opinion_summary'', JStr (codepoints DUMMY_OPINION_SUMMARY)),
           (''sentiment'', JObj [(''positive'', JStr (codepoints DUMMY_SENTIMENT)),
                                 (''negative'', JStr (codepoints DUMMY_SENTIMENT)),
                                 (''neutral'', JStr (codepoints DUMMY_SENTIMENT))]),
           (''top_articles'',
              JArr [JObj [(''rank'', JInt 1), (''title'', JStr (codepoints ''AI three'')),
                          (''source'', JStr (codepoints ''Wired'')), (''url'', JStr (codepoints ''u3'')),
                          (''point'', JStr (codepoints ''...''))],
                    JObj [(''rank'', JInt 2), (''title'', JStr (codepoints ''AI one'')),
                          (''source'', JStr (codepoints ''VentureBeat'')), (''url'', JStr (codepoints [])),
                          (''point'', JStr (codepoints ''...''))]]),
           (''joho_picks'', JArr [])]"
proof -
  have e: "([]::string) = []" by simp
  from summarize_fallback[of "[]" example_invoke example_loads example_ranked,
      THEN conjunct1, rule_format, OF e]
  have "summarize_with_gemini [] example_invoke example_loads example_ranked
     = ([], dummy_summary example_ranked)" .
  then show ?thesis
    by (simp add: dummy_summary_def example_ranked_def top_article_def enumerate_eq_zip
          upt_rec[of 1] Let_def)
qed

section \<open>Extraction of the JSON text\<close>

lemma startswith_length: "startswith s m \<Longrightarrow> length m \<le> length s"
  by (induction s m rule: startswith.induct) auto

lemma startswith_append_notin:
  "x \<notin> set m \<Longrightarrow> startswith (p @ x # r) m = startswith p m"
  by (induction p m rule: startswith.induct) auto

lemma dropWhile_space_brace:
  "dropWhile is_space (q @ CHR ''{'' # rest) = dropWhile is_space q @ CHR ''{'' # rest"
proof -
  have "\<not> is_space (CHR ''{'')" by (simp add: is_space_def)
  then show ?thesis by (rule dropWhile_append3)
qed

lemma remove_marker_before_brace:
  "CHR ''{'' \<notin> set m \<Longrightarrow>
   remove_marker m (pre @ CHR ''{'' # rest) = remove_marker m pre @ remove_marker m (CHR ''{'' # rest)"
proof (induction m pre rule: remove_marker.induct)
  case (1 m)
  show ?case by simp
next
  case (2 m c cs)
  show ?case
  proof (cases "m \<noteq> [] \<and> startswith (c # cs) m")
    case True
    then have sw: "m \<noteq> [] \<and> startswith (c # (cs @ CHR ''{'' # rest)) m"
      using startswith_append_notin[OF "2.prems", of "c # cs" rest] by simp
    from True have len: "length m \<le> length (c # cs)" by (blast intro: startswith_length)
    then have z: "length m - length (c # cs) = 0" by simp
    have d: "drop (length m) ((c # cs) @ CHR ''{'' # rest)
              = drop (length m) (c # cs) @ CHR ''{'' # rest"
      by (simp only: drop_append z drop_0)
    have "remove_marker m ((c # cs) @ CHR ''{'' # rest)
            = remove_marker m (c # (cs @ CHR ''{'' # rest))"
      by simp
    also have "\<dots> = remove_marker m (dropWhile is_space (drop (length m) (c # (cs @ CHR ''{'' # rest))))"
      by (simp only: remove_marker.simps(2) if_P[OF sw])
    also have "\<dots> = remove_marker m (dropWhile is_space (drop (length m) ((c # cs) @ CHR ''{'' # rest)))"
      by simp
    also have "\<dots> = remove_marker m (dropWhile is_space (drop (length m) (c # cs)) @ CHR ''{'' # rest)"
      by (simp only: d dropWhile_space_brace)
    also have "\<dots> = remove_marker m (dropWhile is_space (drop (length m) (c # cs)))
                      @ remove_marker m (CHR ''{'' # rest)"
      by (rule "2.IH"(1)[OF True "2.prems"])
    also have "remove_marker m (dropWhile is_space (drop (length m) (c # cs))) = remove_marker m (c # cs)"
      by (simp only: remove_marker.simps(2) if_P[OF True])
    finally show ?thesis .
  next
    case False
    then have nsw: "\<not> (m \<noteq> [] \<and> startswith (c # (cs @ CHR ''{'' # rest)) m)"
      using startswith_append_notin[OF "2.prems", of "c # cs" rest] by simp
    have "remove_marker m ((c # cs) @ CHR ''{'' # rest)
            = remove_marker m (c # (cs @ CHR ''{'' # rest))"
      by simp
    also have "\<dots> = c # remove_marker m (cs @ CHR ''{'' # rest)"
      by (simp only: remove_marker.simps(2) if_not_P[OF nsw])
    also have "\<dots> = c # (remove_marker m cs @ remove_marker m (CHR ''{'' # rest))"
      by (simp only: "2.IH"(2)[OF False "2.prems"])
    also have "\<dots> = (c # remove_marker m cs) @ remove_marker m (CHR ''{'' # rest)"
      by simp
    also have "c # remove_marker m cs = remove_marker m (c # cs)"
      by (simp only: remove_marker.simps(2) if_not_P[OF False])
    finally show ?thesis .
  qed
qed

lemma remove_marker_no_backtick:
  "CHR 0x60 \<notin> set obj \<Longrightarrow>
   remove_marker (CHR 0x60 # m') (obj @ post) = obj @ remove_marker (CHR 0x60 # m') post"
  by (induction obj) auto

lemma set_remove_marker: "set (remove_marker m s) \<subseteq> set s"
proof (induction m s rule: remove_marker.induct)
  case (1 m)
  show ?case by simp
next
  case (2 m c cs)
  show ?case
  proof (cases "m \<noteq> [] \<and> startswith (c # cs) m")
    case True
    have "set (dropWhile is_space (drop (length m) (c # cs))) \<subseteq> set (c # cs)"
      by (meson set_dropWhileD in_set_dropD subsetI)
    with "2.IH"(1)[OF True] True show ?thesis by auto
  next
    case False
    with "2.IH"(2)[OF False] show ?thesis by auto
  qed
qed

lemma startswith_append_self: "startswith (m @ rest) m"
  by (induction m) auto

lemma remove_marker_absent:
  "m \<noteq> [] \<Longrightarrow> \<forall>k<length s. \<not> startswith (drop k s) m \<Longrightarrow> remove_marker m s = s"
proof (induction s)
  case Nil
  show ?case by simp
next
  case (Cons c cs)
  have "0 < length (c # cs)" by simp
  with Cons.prems(2) have "\<not> startswith (drop 0 (c # cs)) m" by blast
  then have n: "\<not> (m \<noteq> [] \<and> startswith (c # cs) m)" by simp
  have "\<forall>k<length cs. \<not> startswith (drop k cs) m"
  proof (intro allI impI)
    fix k assume "k < length cs"
    then have "Suc k < length (c # cs)" by simp
    with Cons.prems(2) have "\<not> startswith (drop (Suc k) (c # cs)) m" by blast
    then show "\<not> startswith (drop k cs) m" by simp
  qed
  from Cons.IH[OF Cons.prems(1) this] have "remove_marker m cs = cs" .
  then show ?case by (simp only: remove_marker.simps(2) if_not_P[OF n])
qed

lemma remove_marker_first:
  "m \<noteq> [] \<Longrightarrow> \<forall>k<length a. \<not> startswith (drop k (a @ m @ rest)) m \<Longrightarrow>
   remove_marker m (a @ m @ rest) = a @ remove_marker m (dropWhile is_space rest)"
proof (induction a)
  case Nil
  from Nil.prems(1) obtain c cs where mr: "m @ rest = c # cs" by (cases m) auto
  have sw: "m \<noteq> [] \<and> startswith (c # cs) m"
    using Nil.prems(1) startswith_append_self[of m rest] by (simp only: mr) simp
  have "remove_marker m (c # cs) = remove_marker m (dropWhile is_space (drop (length m) (c # cs)))"
    by (simp only: remove_marker.simps(2) if_P[OF sw])
  also have "drop (length m) (c # cs) = rest" by (simp only: mr[symmetric]) simp
  finally show ?case by (simp add: mr)
next
  case (Cons x a)
  have "0 < length (x # a)" by simp
  with Cons.prems(2) have "\<not> startswith (drop 0 ((x # a) @ m @ rest)) m" by blast
  then have n: "\<not> (m \<noteq> [] \<and> startswith (x # (a @ m @ rest)) m)" by simp
  have "\<forall>k<length a. \<not> startswith (drop k (a @ m @ rest)) m"
  proof (intro allI impI)
    fix k assume "k < length a"
    then have "Suc k < length (x # a)" by simp
    with Cons.prems(2) have "\<not> startswith (drop (Suc k) ((x # a) @ m @ rest)) m" by blast
    then show "\<not> startswith (drop k (a @ m @ rest)) m" by simp
  qed
  from Cons.IH[OF Cons.prems(1) this]
  have ih: "remove_marker m (a @ m @ rest) = a @ remove_marker m (dropWhile is_space rest)" .
  have "remove_marker m ((x # a) @ m @ rest) = remove_marker m (x # (a @ m @ rest))" by simp
  also have "\<dots> = x # remove_marker m (a @ m @ rest)"
    by (simp only: remove_marker.simps(2) if_not_P[OF n])
  finally show ?case by (simp add: ih)
qed

lemma search_object_span:
  assumes "CHR ''{'' \<notin> set pre" "CHR ''}'' \<notin> set post"
  shows "search_object (pre @ CHR ''{'' # mid @ CHR ''}'' # post) = Some (CHR ''{'' # mid @ [CHR ''}''])"
proof -
  have a: "dropWhile (\<lambda>c. c \<noteq> CHR ''{'') (pre @ CHR ''{'' # mid @ CHR ''}'' # post)
             = CHR ''{'' # mid @ CHR ''}'' # post"
    using assms(1) by (simp add: dropWhile_append)
  have "dropWhile (\<lambda>c. c \<noteq> CHR ''}'') (rev (mid @ CHR ''}'' # post)) = CHR ''}'' # rev mid"
    using assms(2) by (simp add: dropWhile_append)
  with a show ?thesis by (simp add: search_object_def)
qed

lemma search_object_Some:
  assumes "search_object t = Some span"
  shows "\<exists>a mid b. t = a @ span @ b \<and> span = CHR ''{'' # mid @ [CHR ''}''] \<and>
               CHR ''{'' \<notin> set a \<and> CHR ''}'' \<notin> set b"
proof -
  let ?a = "takeWhile (\<lambda>c. c \<noteq> CHR ''{'') t"
  obtain b0 rest where d: "dropWhile (\<lambda>c. c \<noteq> CHR ''{'') t = b0 # rest"
    using assms by (cases "dropWhile (\<lambda>c. c \<noteq> CHR ''{'') t") (auto simp: search_object_def)
  have b0: "b0 = CHR ''{''" using hd_dropWhile[of "\<lambda>c. c \<noteq> CHR ''{''" t] d by auto
  let ?r = "dropWhile (\<lambda>c. c \<noteq> CHR ''}'') (rev rest)"
  let ?b = "rev (takeWhile (\<lambda>c. c \<noteq> CHR ''}'') (rev rest))"
  from assms d have r: "?r \<noteq> []" and span: "span = b0 # rev ?r"
    by (auto simp: search_object_def Let_def split: if_splits)
  have hr: "hd ?r = CHR ''}''" using hd_dropWhile[OF r] by simp
  from r hr obtain r' where r': "?r = CHR ''}'' # r'" by (cases ?r) auto
  have "rev rest = takeWhile (\<lambda>c. c \<noteq> CHR ''}'') (rev rest) @ ?r"
    by (simp only: takeWhile_dropWhile_id)
  then have "rev (rev rest) = rev (takeWhile (\<lambda>c. c \<noteq> CHR ''}'') (rev rest) @ ?r)"
    by (rule arg_cong)
  then have rest: "rest = rev ?r @ ?b" by (simp only: rev_rev_ident rev_append)
  have "t = ?a @ dropWhile (\<lambda>c. c \<noteq> CHR ''{'') t" by simp
  with d rest span have "t = ?a @ span @ ?b" by simp
  moreover have "CHR ''{'' \<notin> set ?a" by (auto dest: set_takeWhileD)
  moreover have "CHR ''}'' \<notin> set ?b" by (auto dest: set_takeWhileD)
  moreover have "span = CHR ''{'' # rev r' @ [CHR ''}'']" by (simp add: span b0 r')
  ultimately show ?thesis by blast
qed

lemma first_split_unique:
  assumes "x \<notin> set a1" "x \<notin> set a2" "a1 @ x # u = a2 @ x # v"
  shows "u = v"
proof -
  have "dropWhile (\<lambda>c. c \<noteq> x) (a1 @ x # u) = x # u" using assms(1) by (simp add: dropWhile_append)
  moreover have "dropWhile (\<lambda>c. c \<noteq> x) (a2 @ x # v) = x # v" using assms(2) by (simp add: dropWhile_append)
  ultimately show ?thesis using assms(3) by simp
qed

lemma search_object_None:
  "(search_object t = None) = (\<not> (\<exists>a mid b. t = a @ CHR ''{'' # mid @ CHR ''}'' # b))"
proof
  assume n: "search_object t = None"
  show "\<not> (\<exists>a mid b. t = a @ CHR ''{'' # mid @ CHR ''}'' # b)"
  proof
    assume "\<exists>a mid b. t = a @ CHR ''{'' # mid @ CHR ''}'' # b"
    then obtain a mid b where t: "t = a @ CHR ''{'' # mid @ CHR ''}'' # b" by blast
    have "CHR ''{'' \<in> set t" by (simp add: t)
    from split_list_first[OF this] obtain a1 u where
      t1: "t = a1 @ CHR ''{'' # u" and a1: "CHR ''{'' \<notin> set a1" by blast
    have "CHR ''}'' \<in> set u"
    proof (cases "CHR ''{'' \<in> set a")
      case True
      from split_list_first[OF this] obtain a2 v where
        a: "a = a2 @ CHR ''{'' # v" and a2: "CHR ''{'' \<notin> set a2" by blast
      have "a1 @ CHR ''{'' # u = a2 @ CHR ''{'' # (v @ CHR ''{'' # mid @ CHR ''}'' # b)"
        using t t1 a by simp
      with first_split_unique[OF a1 a2] have "u = v @ CHR ''{'' # mid @ CHR ''}'' # b"
        by blast
      then show ?thesis by simp
    next
      case False
      have "a1 @ CHR ''{'' # u = a @ CHR ''{'' # (mid @ CHR ''}'' # b)" using t t1 by simp
      with first_split_unique[OF a1 False] have "u = mid @ CHR ''}'' # b" by blast
      then show ?thesis by simp
    qed
    from split_list_last[OF this] obtain mid' b' where
      u: "u = mid' @ CHR ''}'' # b'" and b': "CHR ''}'' \<notin> set b'" by blast
    have "search_object (a1 @ CHR ''{'' # mid' @ CHR ''}'' # b') = Some (CHR ''{'' # mid' @ [CHR ''}''])"
      by (rule search_object_span[OF a1 b'])
    with n t1 u show False by simp
  qed
next
  assume h: "\<not> (\<exists>a mid b. t = a @ CHR ''{'' # mid @ CHR ''}'' # b)"
  show "search_object t = None"
  proof (cases "search_object t")
    case None
    then show ?thesis .
  next
    case (Some span)
    from search_object_Some[OF this] obtain a mid b where
      "t = a @ span @ b" "span = CHR ''{'' # mid @ [CHR ''}'']" by blast
    then have "t = a @ CHR ''{'' # mid @ CHR ''}'' # b" by simp
    with h show ?thesis by blast
  qed
qed

text \<open>
  Claim C6, as the code has it. The extraction deletes every fence marker with the white
  space behind it and hands to the parser the text from the first opening brace to the last
  closing brace of what remains, not the first balanced object.

  Deleting a marker: a text in which the marker does not occur is left as it is; in a text
  whose first occurrence of the marker is behind \<open>a\<close>, the result is \<open>a\<close> followed by what the
  deletion makes of the text behind the marker and the white space that follows it. The
  two equations fix the result for every text.

  The span: when the extraction finds a span, the text without markers is a text without
  an opening brace, the span, and a text without a closing brace; the span starts with an
  opening and ends with a closing brace, and it is what \<^verbatim>\<open>json.loads\<close> receives. It finds
  none exactly when no closing brace follows an opening brace in the text without
  markers, and then the attempt raises the ValueError of the source.

  The particular case: for a response made of a text without an opening brace, an object
  (a text in braces without a backquote) and a trailing text without a closing brace, the
  span is the object.
\<close>

theorem extract_json_first_to_last_brace:
  "(\<forall>m s. m \<noteq> [] \<and> (\<forall>k<length s. \<not> startswith (drop k s) m) \<longrightarrow> remove_marker m s = s)
   \<and> (\<forall>m a rest.
        m \<noteq> [] \<and> (\<forall>k<length a. \<not> startswith (drop k (a @ m @ rest)) m) \<longrightarrow>
        remove_marker m (a @ m @ rest) = a @ remove_marker m (dropWhile is_space rest))
   \<and> (\<forall>span. extract_json text = Some span \<longrightarrow>
      (\<exists>a mid b. remove_marker ''```'' (remove_marker ''```json'' text) = a @ span @ b \<and>
             span = CHR ''{'' # mid @ [CHR ''}''] \<and>
             CHR ''{'' \<notin> set a \<and> CHR ''}'' \<notin> set b \<and>
             attempt loads (Text (Some text)) = loads span))
   \<and> (extract_json text = None) =
       (\<not> (\<exists>a mid b. remove_marker ''```'' (remove_marker ''```json'' text)
                        = a @ CHR ''{'' # mid @ CHR ''}'' # b))
   \<and> (extract_json text = None \<longrightarrow> attempt loads (Text (Some text)) = Inl NO_JSON_ERROR)
   \<and> (\<forall>pre obj mid post.
        text = pre @ obj @ post \<and> obj = CHR ''{'' # mid @ [CHR ''}''] \<and>
        CHR ''{'' \<notin> set pre \<and> CHR 0x60 \<notin> set obj \<and> CHR ''}'' \<notin> set post \<longrightarrow>
        extract_json text = Some obj \<and> attempt loads (Text (Some text)) = loads obj)"
proof (intro conjI; (intro allI impI)?)
  fix m s :: string
  assume "m \<noteq> [] \<and> (\<forall>k<length s. \<not> startswith (drop k s) m)"
  then show "remove_marker m s = s" by (intro remove_marker_absent) blast+
next
  fix m a rest :: string
  assume "m \<noteq> [] \<and> (\<forall>k<length a. \<not> startswith (drop k (a @ m @ rest)) m)"
  then show "remove_marker m (a @ m @ rest) = a @ remove_marker m (dropWhile is_space rest)"
    by (intro remove_marker_first) blast+
next
  fix span
  assume e: "extract_json text = Some span"
  then have "search_object (remove_marker ''```'' (remove_marker ''```json'' text)) = Some span"
    by (simp add: extract_json_def)
  from search_object_Some[OF this] e
  show "\<exists>a mid b. remove_marker ''```'' (remove_marker ''```json'' text) = a @ span @ b \<and>
             span = CHR ''{'' # mid @ [CHR ''}''] \<and>
             CHR ''{'' \<notin> set a \<and> CHR ''}'' \<notin> set b \<and>
             attempt loads (Text (Some text)) = loads span"
    by (auto simp: attempt_def)
next
  show "(extract_json text = None) =
       (\<not> (\<exists>a mid b. remove_marker ''```'' (remove_marker ''```json'' text)
                        = a @ CHR ''{'' # mid @ CHR ''}'' # b))"
    unfolding extract_json_def by (rule search_object_None)
next
  assume "extract_json text = None"
  then show "attempt loads (Text (Some text)) = Inl NO_JSON_ERROR" by (simp add: attempt_def)
next
  fix pre obj mid post
  assume h: "text = pre @ obj @ post \<and> obj = CHR ''{'' # mid @ [CHR ''}''] \<and>
        CHR ''{'' \<notin> set pre \<and> CHR 0x60 \<notin> set obj \<and> CHR ''}'' \<notin> set post"
  then have obj: "obj = CHR ''{'' # mid @ [CHR ''}'']"
    and nb: "CHR 0x60 \<notin> set obj" and np: "CHR ''{'' \<notin> set pre" and nq: "CHR ''}'' \<notin> set post"
    by blast+
  have m1: "''```json'' = CHR 0x60 # ''``json''" and m2: "''```'' = CHR 0x60 # ''``''" by simp_all
  have step: "remove_marker m (p @ obj @ q) = remove_marker m p @ obj @ remove_marker m q"
    if "m = CHR 0x60 # m'" "CHR ''{'' \<notin> set m" for m m' p q
  proof -
    have "remove_marker m (p @ obj @ q) = remove_marker m (p @ CHR ''{'' # (mid @ [CHR ''}''] @ q))"
      by (simp add: obj)
    also have "\<dots> = remove_marker m p @ remove_marker m (CHR ''{'' # (mid @ [CHR ''}''] @ q))"
      by (rule remove_marker_before_brace[OF that(2)])
    also have "remove_marker m (CHR ''{'' # (mid @ [CHR ''}''] @ q)) = remove_marker m (obj @ q)"
      by (simp add: obj)
    also have "\<dots> = obj @ remove_marker m q"
      unfolding that(1) by (rule remove_marker_no_backtick[OF nb])
    finally show ?thesis .
  qed
  from h have t: "text = pre @ obj @ post" by blast
  have s1: "remove_marker ''```json'' text
             = remove_marker ''```json'' pre @ obj @ remove_marker ''```json'' post"
    unfolding t by (rule step[OF m1]) simp
  have s2: "remove_marker ''```'' (remove_marker ''```json'' text)
             = remove_marker ''```'' (remove_marker ''```json'' pre) @ obj
               @ remove_marker ''```'' (remove_marker ''```json'' post)"
    unfolding s1 by (rule step[OF m2]) simp
  have p': "CHR ''{'' \<notin> set (remove_marker ''```'' (remove_marker ''```json'' pre))"
    using np set_remove_marker[of "''```''" "remove_marker ''```json'' pre"]
      set_remove_marker[of "''```json''" pre] by blast
  have q': "CHR ''}'' \<notin> set (remove_marker ''```'' (remove_marker ''```json'' post))"
    using nq set_remove_marker[of "''```''" "remove_marker ''```json'' post"]
      set_remove_marker[of "''```json''" post] by blast
  have "extract_json text = Some obj"
    unfolding extract_json_def s2 using search_object_span[OF p' q', of mid] by (simp add: obj)
  then show "extract_json text = Some obj \<and> attempt loads (Text (Some text)) = loads obj"
    by (simp add: attempt_def)
qed

text \<open>
  The claim as stated fails: for the response \<^verbatim>\<open>{} and {}\<close>, a well-formed object followed
  by trailing text, the text handed to the parser is the whole response, while the first
  balanced object is \<^verbatim>\<open>{}\<close>. A parser that accepts \<^verbatim>\<open>{}\<close> therefore fails on this response,
  and the attempt ends in an exception instead of the parsed object.
\<close>

theorem extract_json_not_first_balanced:
  "extract_json ''{} and {}'' = Some ''{} and {}'' \<and>
   spec_first_balanced_object ''{} and {}'' = Some ''{}'' \<and>
   attempt example_loads (Text (Some ''{} and {}'')) = Inl ''Expecting value'' \<and>
   example_loads ''{}'' = Inr (JObj [])"
  by code_simp

theorem extract_json_first_to_last_brace_witness:
  "''```json {} ```'' = ''```json '' @ ''{}'' @ '' ```'' \<and> ''{}'' = CHR ''{'' # [] @ [CHR ''}''] \<and>
   CHR ''{'' \<notin> set ''```json '' \<and> CHR 0x60 \<notin> set ''{}'' \<and> CHR ''}'' \<notin> set '' ```'' \<and>
   extract_json ''```json {} ```'' = Some ''{}'' \<and>
   \<not> startswith (''{ '' @ ''```'' @ [CHR 0xA0, CHR 0x0A, CHR ''}'']) ''```'' \<and>
   \<not> startswith (drop 1 (''{ '' @ ''```'' @ [CHR 0xA0, CHR 0x0A, CHR ''}''])) ''```'' \<and>
   remove_marker ''```'' (''{ '' @ ''```'' @ [CHR 0xA0, CHR 0x0A, CHR ''}'']) = ''{ }'' \<and>
   extract_json (''{ '' @ ''```'' @ [CHR 0xA0, CHR 0x0A, CHR ''}'']) = Some ''{ }'' \<and>
   remove_marker ''```'' ''{ `` }'' = ''{ `` }'' \<and>
   extract_json ''no brace```'' = None"
proof -
  have h: "''```json {} ```'' = ''```json '' @ ''{}'' @ '' ```'' \<and> ''{}'' = CHR ''{'' # [] @ [CHR ''}''] \<and>
   CHR ''{'' \<notin> set ''```json '' \<and> CHR 0x60 \<notin> set ''{}'' \<and> CHR ''}'' \<notin> set '' ```''"
    by simp
  note main = extract_json_first_to_last_brace[of "''```json {} ```''"]
  note particular = main[THEN conjunct2, THEN conjunct2, THEN conjunct2, THEN conjunct2,
      THEN conjunct2, rule_format, OF h]
  have n: "\<not> startswith (''{ '' @ ''```'' @ [CHR 0xA0, CHR 0x0A, CHR ''}'']) ''```''"
    "\<not> startswith (drop 1 (''{ '' @ ''```'' @ [CHR 0xA0, CHR 0x0A, CHR ''}''])) ''```''"
    by simp_all
  have k: "''```'' \<noteq> [] \<and> (\<forall>k<length ''{ ''. \<not> startswith (drop k (''{ '' @ ''```'' @ [CHR 0xA0, CHR 0x0A, CHR ''}''])) ''```'')"
    by (simp add: less_Suc_eq)
  from main[THEN conjunct2, THEN conjunct1, rule_format, OF k]
  have "remove_marker ''```'' (''{ '' @ ''```'' @ [CHR 0xA0, CHR 0x0A, CHR ''}''])
          = ''{ '' @ remove_marker ''```'' (dropWhile is_space [CHR 0xA0, CHR 0x0A, CHR ''}''])" .
  also have "dropWhile is_space [CHR 0xA0, CHR 0x0A, CHR ''}''] = ''}''" by code_simp
  also have "remove_marker ''```'' ''}'' = ''}''" by simp
  finally have r: "remove_marker ''```'' (''{ '' @ ''```'' @ [CHR 0xA0, CHR 0x0A, CHR ''}'']) = ''{ }''"
    by simp
  have e: "extract_json (''{ '' @ ''```'' @ [CHR 0xA0, CHR 0x0A, CHR ''}'']) = Some ''{ }''"
    by code_simp
  have a: "''```'' \<noteq> [] \<and> (\<forall>k<length ''{ `` }''. \<not> startswith (drop k ''{ `` }'') ''```'')"
    by (simp add: less_Suc_eq)
  from main[THEN conjunct1, rule_format, OF a]
  have i: "remove_marker ''```'' ''{ `` }'' = ''{ `` }''" .
  have x: "extract_json ''no brace```'' = None" by code_simp
  from particular h n r e i x show ?thesis by blast
qed
section \<open>The persistence store\<close>




text \<open>
  The claim as stated fails. A candidate answers with a summary whose text holds the
  escape of a lone surrogate; the directory holds a latest file from the run before. The
  run raises UnicodeEncodeError, the snapshot file holds the start of the data only, and
  the latest file still holds the old content: the two files differ.
\<close>

theorem save_data_surrogate_differs:
  "snd (save_data 4 example_dump example_encode example_now example_now example_old_files
          example_surrogate_summary []) = Inl UnicodeEncodeError \<and>
   fst (save_data 4 example_dump example_encode example_now example_now example_old_files
          example_surrogate_summary []) ''news_20240301_0300.json''
     = Some ''timestamp2024-03-01T03:00:00+09:00time_slotnightsummarynews_summary'' \<and>
   fst (save_data 4 example_dump example_encode example_now example_now example_old_files
          example_surrogate_summary []) ''latest.json'' = Some ''OLD'' \<and>
   fst (save_data 4 example_dump example_encode example_now example_now example_old_files
          example_surrogate_summary []) ''news_20240301_0300.json''
     \<noteq> fst (save_data 4 example_dump example_encode example_now example_now example_old_files
          example_surrogate_summary []) ''latest.json''"
proof -
  have r: "snd (save_data 4 example_dump example_encode example_now example_now example_old_files
          example_surrogate_summary []) = Inl UnicodeEncodeError"
    by code_simp
  have f: "fst (save_data 4 example_dump example_encode example_now example_now example_old_files
          example_surrogate_summary []) ''news_20240301_0300.json''
     = Some ''timestamp2024-03-01T03:00:00+09:00time_slotnightsummarynews_summary''"
    by code_simp
  have l: "fst (save_data 4 example_dump example_encode example_now example_now example_old_files
          example_surrogate_summary []) ''latest.json'' = Some ''OLD''"
    by code_simp
  show ?thesis unfolding r f l by simp
qed



lemma read_files_closed:
  "read_files files loads fs history = history @ List.map_filter (read_json files loads) fs"
  by (induction fs arbitrary: history)
     (auto simp: read_json_def List.map_filter_simps split: option.splits sum.splits)

lemma load_history_closed:
  "load_history listing files loads =
     List.map_filter (read_json files loads)
       (take 12 (sort_desc (\<lambda>f. f) (filter is_news_file listing)))"
  by (simp add: load_history_def read_files_closed)

lemma fmt_d_wide:
  assumes "1000 \<le> n" "w \<le> 4"
  shows "fmt_d w n = fmt_d 4 n"
proof -
  from assms(1) have g: "\<not> n < 10" "\<not> n div 10 < 10" "\<not> n div 10 div 10 < 10" by simp_all
  have s: "\<And>v m. \<not> m < 10 \<Longrightarrow> fmt_d v m = fmt_d (v - 1) (m div 10) @ [digit_char (m mod 10)]"
    by (subst fmt_d.simps) simp
  have z: "w - 1 - 1 - 1 - 1 = 4 - 1 - 1 - 1 - (1::nat)" "w - 1 - 1 - 1 - 1 - 1 = 4 - 1 - 1 - 1 - 1 - (1::nat)"
    using assms(2) by simp_all
  have e: "fmt_d (w - 1 - 1 - 1) (n div 10 div 10 div 10) = fmt_d (4 - 1 - 1 - 1) (n div 10 div 10 div 10)"
    by (subst fmt_d.simps, subst (2) fmt_d.simps) (simp only: z)
  show ?thesis
    by (simp only: s[OF g(1)] s[OF g(2)] s[OF g(3)] e)
qed

lemma snapshot_name_cmp:
  assumes a: "valid_datetime a" and b: "valid_datetime b"
    and y: "ypad = 4 \<or> ypad \<le> 4 \<and> 1000 \<le> year a \<and> 1000 \<le> year b"
  shows "(snapshot_name ypad a < snapshot_name ypad b) =
         ((year a, month a, day a, hour a, minute a) < (year b, month b, day b, hour b, minute b))"
proof -
  have two: "(1::nat) \<le> 2" and four: "(1::nat) \<le> 4" by simp_all
  note va = valid_datetime_bounds[OF a] and vb = valid_datetime_bounds[OF b]
  note c5 = fmt_d_cmp[OF two va(5) vb(5)]
  have l5: "(fmt_d 2 (minute a) @ ''.json'' < fmt_d 2 (minute b) @ ''.json'') = (minute a < minute b)"
    "(fmt_d 2 (minute a) @ ''.json'' = fmt_d 2 (minute b) @ ''.json'') = (minute a = minute b)"
    using c5 by (simp_all add: lex_append_same_length)
  note l4 = lex_field_fmt[where sep = "[]", unfolded append_Nil, OF two va(4) vb(4) l5]
  note l3 = lex_field_fmt[where sep = "''_''", OF two va(3) vb(3) l4]
  note l2 = lex_field_fmt[where sep = "[]", unfolded append_Nil, OF two va(2) vb(2) l3]
  note l1 = lex_field_fmt[where sep = "[]", unfolded append_Nil, OF four va(1) vb(1) l2]
  from y have w: "fmt_d ypad (year a) = fmt_d 4 (year a)" "fmt_d ypad (year b) = fmt_d 4 (year b)"
    using fmt_d_wide[of "year a" ypad] fmt_d_wide[of "year b" ypad] by blast+
  have n: "\<And>d. snapshot_name ypad d = ''news_'' @ (fmt_d ypad (year d) @ fmt_d 2 (month d) @ fmt_d 2 (day d)
            @ ''_'' @ fmt_d 2 (hour d) @ fmt_d 2 (minute d) @ ''.json'')"
    by (simp add: snapshot_name_def strftime_stamp_def)
  have p: "\<And>x y :: string. (''news_'' @ x < ''news_'' @ y) = (x < y)"
    by (simp add: lex_append_same_length)
  show ?thesis unfolding n p w by (rule l1(1))
qed

lemma map_filter_twelve:
  assumes "length recent = 12" "r (recent ! 6) = None"
    "\<forall>i<12. i \<noteq> 6 \<longrightarrow> r (recent ! i) = Some (d i)"
  shows "List.map_filter r recent = map d [0, 1, 2, 3, 4, 5, 7, 8, 9, 10, 11]"
proof -
  have idx: "[0..<12] = [0, 1, 2, 3, 4, 5, 6, 7, 8, 9, 10, 11::nat]" by code_simp
  have "recent = map ((!) recent) [0..<length recent]" by (simp add: map_nth)
  then have rec: "recent = map ((!) recent) [0, 1, 2, 3, 4, 5, 6, 7, 8, 9, 10, 11]"
    by (simp only: assms(1) idx)
  have v: "r (recent ! 0) = Some (d 0)" "r (recent ! 1) = Some (d 1)" "r (recent ! 2) = Some (d 2)"
    "r (recent ! 3) = Some (d 3)" "r (recent ! 4) = Some (d 4)" "r (recent ! 5) = Some (d 5)"
    "r (recent ! 7) = Some (d 7)" "r (recent ! 8) = Some (d 8)" "r (recent ! 9) = Some (d 9)"
    "r (recent ! 10) = Some (d 10)" "r (recent ! 11) = Some (d 11)"
    using assms(3) by simp_all
  have "List.map_filter r (map ((!) recent) [0, 1, 2, 3, 4, 5, 6, 7, 8, 9, 10, 11])
          = map d [0, 1, 2, 3, 4, 5, 7, 8, 9, 10, 11]"
    using v assms(2) by (simp add: List.map_filter_simps)
  with rec show ?thesis by simp
qed

text \<open>
  Claim C8. \<^verbatim>\<open>load_history\<close> sorts the snapshot names of the directory in descending
  order, takes the first twelve and returns, in that order, what parses of them; a file
  that cannot be read or parsed is left out and the files after it are still read. The
  name of a snapshot orders like its timestamp (year, month, day, hour, minute), so
  descending names are most recent first: on a platform that prints the year on four
  digits for every date, and on one that does not pad the year for the dates from the year
  1000 on (below, \<^verbatim>\<open>%Y\<close> prints fewer than four digits there and the names of different
  lengths do not order like the dates). When twelve files are taken and the seventh does
  not parse while the others do, the result is the other eleven, in the same order.
\<close>

theorem load_history_skips_corrupt:
  "load_history listing files loads =
     List.map_filter (read_json files loads)
       (take 12 (sort_desc (\<lambda>f. f) (filter is_news_file listing)))
   \<and> sorted_wrt (\<lambda>f g. g \<le> f) (sort_desc (\<lambda>f. f) (filter is_news_file listing))
   \<and> mset (sort_desc (\<lambda>f. f) (filter is_news_file listing)) = mset (filter is_news_file listing)
   \<and> (\<forall>ypad a b.
         valid_datetime a \<and> valid_datetime b \<and>
         (ypad = 4 \<or> ypad \<le> 4 \<and> 1000 \<le> year a \<and> 1000 \<le> year b) \<longrightarrow>
         (snapshot_name ypad a < snapshot_name ypad b) =
         ((year a, month a, day a, hour a, minute a) < (year b, month b, day b, hour b, minute b)))
   \<and> (\<forall>recent d.
         recent = take 12 (sort_desc (\<lambda>f. f) (filter is_news_file listing)) \<and>
         length recent = 12 \<and> read_json files loads (recent ! 6) = None \<and>
         (\<forall>i<12. i \<noteq> 6 \<longrightarrow> read_json files loads (recent ! i) = Some (d i)) \<longrightarrow>
         load_history listing files loads = map d [0, 1, 2, 3, 4, 5, 7, 8, 9, 10, 11])"
proof (intro conjI allI impI)
  show "load_history listing files loads =
     List.map_filter (read_json files loads)
       (take 12 (sort_desc (\<lambda>f. f) (filter is_news_file listing)))"
    by (rule load_history_closed)
  show "sorted_wrt (\<lambda>f g. g \<le> f) (sort_desc (\<lambda>f. f) (filter is_news_file listing))"
    by (rule descending_sort_desc)
  show "mset (sort_desc (\<lambda>f. f) (filter is_news_file listing)) = mset (filter is_news_file listing)"
    by (rule mset_sort_desc)
next
  fix ypad :: nat and a b
  assume "valid_datetime a \<and> valid_datetime b \<and>
         (ypad = 4 \<or> ypad \<le> 4 \<and> 1000 \<le> year a \<and> 1000 \<le> year b)"
  then show "(snapshot_name ypad a < snapshot_name ypad b) =
         ((year a, month a, day a, hour a, minute a) < (year b, month b, day b, hour b, minute b))"
    by (intro snapshot_name_cmp) blast+
next
  fix recent d
  assume h: "recent = take 12 (sort_desc (\<lambda>f. f) (filter is_news_file listing)) \<and>
         length recent = 12 \<and> read_json files loads (recent ! 6) = None \<and>
         (\<forall>i<12. i \<noteq> 6 \<longrightarrow> read_json files loads (recent ! i) = Some (d i))"
  then have "List.map_filter (read_json files loads) recent = map d [0, 1, 2, 3, 4, 5, 7, 8, 9, 10, 11]"
    by (intro map_filter_twelve) blast+
  with h show "load_history listing files loads = map d [0, 1, 2, 3, 4, 5, 7, 8, 9, 10, 11]"
    by (simp add: load_history_closed)
qed

lemma example_recent_eq:
  "take 12 (sort_desc (\<lambda>f. f) (filter is_news_file example_listing)) = example_recent"
  by code_simp

lemma less_twelve: "(i::nat) < 12 \<Longrightarrow> i \<in> {0, 1, 2, 3, 4, 5, 6, 7, 8, 9, 10, 11}"
  by (simp add: eval_nat_numeral less_Suc_eq)

theorem load_history_skips_corrupt_witness:
  "example_recent = take 12 (sort_desc (\<lambda>f. f) (filter is_news_file example_listing)) \<and>
   length example_recent = 12 \<and>
   read_json example_files example_file_loads (example_recent ! 6) = None \<and>
   map (read_json example_files example_file_loads) (take 6 example_recent)
     = map (\<lambda>f. Some (JStr (codepoints f))) (take 6 example_recent) \<and>
   map (read_json example_files example_file_loads) (drop 7 example_recent)
     = map (\<lambda>f. Some (JStr (codepoints f))) (drop 7 example_recent) \<and>
   load_history example_listing example_files example_file_loads =
     map (\<lambda>f. JStr (codepoints f))
       [''news_20240303_2000.json'', ''news_20240303_1600.json'',
        ''news_20240303_1200.json'', ''news_20240303_0600.json'',
        ''news_20240302_2000.json'', ''news_20240302_1600.json'',
        ''news_20240302_0600.json'',
        ''news_20240301_2000.json'', ''news_20240301_1600.json'',
        ''news_20240301_1200.json'', ''news_20240301_0600.json'']"
proof -
  have r: "example_recent = take 12 (sort_desc (\<lambda>f. f) (filter is_news_file example_listing))"
    by (simp only: example_recent_eq)
  have l: "length example_recent = 12" by (simp add: example_recent_def)
  have c: "read_json example_files example_file_loads (example_recent ! 6) = None"
    by (simp add: example_recent_def read_json_def example_files_def example_file_loads_def)
  have g: "\<forall>i<12. i \<noteq> 6 \<longrightarrow>
      read_json example_files example_file_loads (example_recent ! i) = Some (JStr (codepoints (example_recent ! i)))"
  proof (intro allI impI)
    fix i :: nat
    assume "i < 12" "i \<noteq> 6"
    with less_twelve[of i] have "i \<in> {0, 1, 2, 3, 4, 5, 7, 8, 9, 10, 11}" by simp
    then show "read_json example_files example_file_loads (example_recent ! i)
                 = Some (JStr (codepoints (example_recent ! i)))"
      by (auto simp: example_recent_def read_json_def example_files_def example_file_loads_def)
  qed
  from load_history_skips_corrupt[of example_listing example_files example_file_loads,
      THEN conjunct2, THEN conjunct2, THEN conjunct2, THEN conjunct2, rule_format,
      of example_recent "\<lambda>i. JStr (codepoints (example_recent ! i))", OF conjI[OF r conjI[OF l conjI[OF c g]]]]
  have "load_history example_listing example_files example_file_loads
          = map (\<lambda>i. JStr (codepoints (example_recent ! i))) [0, 1, 2, 3, 4, 5, 7, 8, 9, 10, 11]" .
  then have "load_history example_listing example_files example_file_loads =
     map (\<lambda>f. JStr (codepoints f))
       [''news_20240303_2000.json'', ''news_20240303_1600.json'',
        ''news_20240303_1200.json'', ''news_20240303_0600.json'',
        ''news_20240302_2000.json'', ''news_20240302_1600.json'',
        ''news_20240302_0600.json'',
        ''news_20240301_2000.json'', ''news_20240301_1600.json'',
        ''news_20240301_1200.json'', ''news_20240301_0600.json'']"
    by (simp add: example_recent_def)
  moreover have "map (read_json example_files example_file_loads) (take 6 example_recent)
     = map (\<lambda>f. Some (JStr (codepoints f))) (take 6 example_recent)"
    by (simp add: example_recent_def read_json_def example_files_def example_file_loads_def)
  moreover have "map (read_json example_files example_file_loads) (drop 7 example_recent)
     = map (\<lambda>f. Some (JStr (codepoints f))) (drop 7 example_recent)"
    by (simp add: example_recent_def read_json_def example_files_def example_file_loads_def)
  ultimately show ?thesis using r l c by blast
qed

section \<open>The trigger loop: next run\<close>

lemma lex4_split:
  fixes r r' :: "'r::linorder" and y y' :: "'a::linorder" and m m' :: "'b::linorder"
    and d d' :: "'c::linorder"
  shows "((y, m, d, r) < (y', m', d', r')) =
         ((y, m, d) < (y', m', d') \<or> (y, m, d) = (y', m', d') \<and> r < r')"
  by auto

lemma dt_less_split:
  "dt_less a b = (date_of a < date_of b \<or> date_of a = date_of b \<and> time_of a < time_of b)"
  unfolding dt_less_def dt_fields_def date_of_def time_of_def by (rule lex4_split)

lemma date_of_replace_hour [simp]: "date_of (replace_hour d h) = date_of d"
  by (simp add: date_of_def replace_hour_def)

lemma time_of_replace_hour [simp]: "time_of (replace_hour d h) = (h, 0, 0, 0)"
  by (simp add: time_of_def replace_hour_def)

lemma time_less_hour: "(time_of d < (h, 0, 0, 0)) = (hour d < h)"
  by (auto simp: time_of_def)

lemma time_of_trigger: "is_trigger_time t \<Longrightarrow> time_of t = (hour t, 0, 0, 0)"
  by (simp add: is_trigger_time_def time_of_def)

lemma trigger_less_iff: "((h, 0::nat, 0::nat, 0::nat) < (k, 0, 0, 0)) = ((h::nat) < k)"
  by auto

lemma dt_less_replace_hour:
  "dt_less now (replace_hour now h) = (hour now < h)"
  by (simp add: dt_less_split time_less_hour)

lemma first_candidate_schedule:
  "first_candidate now SCHEDULE_HOURS =
     (if hour now < 6 then Some (replace_hour now 6)
      else if hour now < 12 then Some (replace_hour now 12)
      else if hour now < 16 then Some (replace_hour now 16)
      else if hour now < 20 then Some (replace_hour now 20) else None)"
  by (simp add: SCHEDULE_HOURS_def dt_less_replace_hour Let_def)

lemma days_in_month_pos: "1 \<le> days_in_month y m"
  by (simp add: days_in_month_def)

lemma add_one_day_least:
  assumes "valid_datetime t" "add_one_day a = Some b" "date_of a < date_of t"
  shows "date_of b \<le> date_of t"
  using assms unfolding date_of_def
  by (cases "month a = month t"; cases "year a = year t")
     (auto simp: add_one_day_def valid_datetime_def split: if_splits)

lemma add_one_day_defined:
  "valid_datetime a \<Longrightarrow> date_of a \<noteq> (9999, 12, 31) \<Longrightarrow> \<exists>b. add_one_day a = Some b"
  by (auto simp: add_one_day_def valid_datetime_def days_in_month_def date_of_def)

lemma add_one_day_valid:
  "valid_datetime a \<Longrightarrow> add_one_day a = Some b \<Longrightarrow> valid_datetime b"
  using days_in_month_pos[of "year a" "Suc (month a)"] days_in_month_pos[of "Suc (year a)" "Suc 0"]
  by (auto simp: add_one_day_def valid_datetime_def split: if_splits)

lemma add_one_day_later: "add_one_day a = Some b \<Longrightarrow> date_of a < date_of b"
  by (auto simp: add_one_day_def date_of_def split: if_splits)

lemma valid_replace_hour:
  "valid_datetime d \<Longrightarrow> h < 24 \<Longrightarrow> valid_datetime (replace_hour d h)"
  by (simp add: valid_datetime_def replace_hour_def)

lemma is_trigger_replace_hour:
  "h \<in> set SCHEDULE_HOURS \<Longrightarrow> is_trigger_time (replace_hour d h)"
  by (simp add: is_trigger_time_def replace_hour_def)

lemma same_day_least:
  assumes "is_trigger_time t" "dt_less now t"
    and "\<forall>k\<in>set SCHEDULE_HOURS. hour now < k \<longrightarrow> h \<le> k"
  shows "\<not> dt_less t (replace_hour now h)"
proof
  assume lt: "dt_less t (replace_hour now h)"
  have tt: "time_of t = (hour t, 0, 0, 0)" by (rule time_of_trigger[OF assms(1)])
  from lt have a: "date_of t < date_of now \<or> date_of t = date_of now \<and> hour t < h"
    by (simp add: dt_less_split tt trigger_less_iff)
  from assms(2) have b: "date_of now < date_of t \<or> date_of now = date_of t \<and> hour now < hour t"
    by (simp add: dt_less_split tt time_less_hour)
  from a b have "hour t < h" "hour now < hour t" by auto
  moreover have "hour t \<in> set SCHEDULE_HOURS" using assms(1) by (simp add: is_trigger_time_def)
  ultimately show False using assms(3) by fastforce
qed

lemma next_day_least:
  assumes "valid_datetime t" "is_trigger_time t" "dt_less now t" "20 \<le> hour now"
    "add_one_day now = Some tomorrow"
  shows "\<not> dt_less t (replace_hour tomorrow 6)"
proof
  assume lt: "dt_less t (replace_hour tomorrow 6)"
  have tt: "time_of t = (hour t, 0, 0, 0)" by (rule time_of_trigger[OF assms(2)])
  have ht: "6 \<le> hour t" "hour t \<le> 20"
    using assms(2) by (auto simp: is_trigger_time_def SCHEDULE_HOURS_def)
  from assms(3) have "date_of now < date_of t \<or> date_of now = date_of t \<and> hour now < hour t"
    by (simp add: dt_less_split tt time_less_hour)
  with ht assms(4) have "date_of now < date_of t" by auto
  from add_one_day_least[OF assms(1) assms(5) this]
  have le: "date_of tomorrow \<le> date_of t" .
  from lt have "date_of t < date_of tomorrow \<or> date_of t = date_of tomorrow \<and> hour t < 6"
    by (simp add: dt_less_split tt trigger_less_iff)
  with le ht show False by auto
qed

text \<open>
  Claim C9. For a current local time \<open>now\<close> whose following day exists, \<^verbatim>\<open>get_next_run\<close>
  returns a trigger time \<open>r\<close> strictly after \<open>now\<close> such that no trigger time on any day
  lies strictly between \<open>now\<close> and \<open>r\<close>. Before 20:00 the result is on the day of \<open>now\<close>
  (before 06:00 it is 06:00 of that day); from 20:00 on, every time of the day has passed
  and the result is 06:00 of the next day, so at 21:00 it is 06:00 of the next day and at
  05:00 it is 06:00 of the same day. On 9999-12-31 from 20:00 on there is no next day and
  Python raises OverflowError; that day is excluded.
\<close>

theorem get_next_run_earliest_trigger:
  assumes "valid_datetime now" and "date_of now \<noteq> (9999, 12, 31)"
  shows "\<exists>r. get_next_run now = Inr r \<and> valid_datetime r \<and> is_trigger_time r \<and>
           dt_less now r \<and>
           (\<forall>t. valid_datetime t \<and> is_trigger_time t \<and> dt_less now t \<longrightarrow> \<not> dt_less t r) \<and>
           (hour now < 20 \<longrightarrow> date_of r = date_of now) \<and>
           (hour now < 6 \<longrightarrow> r = replace_hour now 6) \<and>
           (20 \<le> hour now \<longrightarrow>
              (\<exists>tomorrow. add_one_day now = Some tomorrow \<and> r = replace_hour tomorrow 6))"
proof (cases "hour now < 20")
  case True
  define h :: nat where
    "h = (if hour now < 6 then 6 else if hour now < 12 then 12 else if hour now < 16 then 16 else 20)"
  have fc: "first_candidate now SCHEDULE_HOURS = Some (replace_hour now h)"
    using True by (simp add: first_candidate_schedule h_def)
  have hs: "h \<in> set SCHEDULE_HOURS" "hour now < h" "h < 24"
    using True by (auto simp: h_def SCHEDULE_HOURS_def)
  have least: "\<forall>k\<in>set SCHEDULE_HOURS. hour now < k \<longrightarrow> h \<le> k"
    by (auto simp: h_def SCHEDULE_HOURS_def)
  have "get_next_run now = Inr (replace_hour now h)"
    by (simp add: get_next_run_def fc)
  moreover have "valid_datetime (replace_hour now h)"
    by (rule valid_replace_hour[OF assms(1) hs(3)])
  moreover have "is_trigger_time (replace_hour now h)"
    by (rule is_trigger_replace_hour[OF hs(1)])
  moreover have "dt_less now (replace_hour now h)"
    by (simp add: dt_less_replace_hour hs(2))
  moreover have "\<forall>t. valid_datetime t \<and> is_trigger_time t \<and> dt_less now t
                   \<longrightarrow> \<not> dt_less t (replace_hour now h)"
    using same_day_least[OF _ _ least] by blast
  moreover have "hour now < 6 \<longrightarrow> replace_hour now h = replace_hour now 6"
    by (simp add: h_def)
  ultimately show ?thesis using True by simp
next
  case False
  then have late: "20 \<le> hour now" by simp
  from add_one_day_defined[OF assms] obtain tomorrow where tm: "add_one_day now = Some tomorrow" ..
  have fc: "first_candidate now SCHEDULE_HOURS = None"
    using False by (simp add: first_candidate_schedule)
  have h0: "SCHEDULE_HOURS ! 0 = 6" by (simp add: SCHEDULE_HOURS_def)
  have "get_next_run now = Inr (replace_hour tomorrow 6)"
    by (simp add: get_next_run_def fc tm h0)
  moreover have "valid_datetime (replace_hour tomorrow 6)"
    by (rule valid_replace_hour[OF add_one_day_valid[OF assms(1) tm]]) simp
  moreover have "is_trigger_time (replace_hour tomorrow 6)"
    by (rule is_trigger_replace_hour) (simp add: SCHEDULE_HOURS_def)
  moreover have "dt_less now (replace_hour tomorrow 6)"
    using add_one_day_later[OF tm] by (simp add: dt_less_split)
  moreover have "\<forall>t. valid_datetime t \<and> is_trigger_time t \<and> dt_less now t
                   \<longrightarrow> \<not> dt_less t (replace_hour tomorrow 6)"
    using next_day_least[OF _ _ _ late tm] by blast
  ultimately show ?thesis using False tm by simp
qed

theorem get_next_run_earliest_trigger_witness:
  "valid_datetime \<lparr>year = 2024, month = 2, day = 29, hour = 21, minute = 0, second = 0, microsecond = 0\<rparr>
   \<and> date_of \<lparr>year = 2024, month = 2, day = 29, hour = 21, minute = 0, second = 0, microsecond = 0\<rparr>
        \<noteq> (9999, 12, 31)
   \<and> get_next_run \<lparr>year = 2024, month = 2, day = 29, hour = 21, minute = 0, second = 0, microsecond = 0\<rparr>
       = Inr \<lparr>year = 2024, month = 3, day = 1, hour = 6, minute = 0, second = 0, microsecond = 0\<rparr>"
proof -
  let ?w = "\<lparr>year = 2024, month = 2, day = 29, hour = 21, minute = 0, second = 0, microsecond = 0\<rparr>"
  have v: "valid_datetime ?w" by (simp add: valid_datetime_def days_in_month_def is_leap_def)
  have d: "date_of ?w \<noteq> (9999, 12, 31)" by (simp add: date_of_def)
  from get_next_run_earliest_trigger[OF v d] obtain r where
    r: "get_next_run ?w = Inr r"
       "20 \<le> hour ?w \<longrightarrow> (\<exists>tomorrow. add_one_day ?w = Some tomorrow \<and> r = replace_hour tomorrow 6)"
    by blast
  from r(2) have "r = \<lparr>year = 2024, month = 3, day = 1, hour = 6, minute = 0, second = 0, microsecond = 0\<rparr>"
    by (simp add: add_one_day_def days_in_month_def is_leap_def replace_hour_def)
  with r(1) v d show ?thesis by simp
qed

end
